theory Spec2Isabelle
  imports Complex_Main "HOL-Library.Multiset"
begin

section \<open>Data model (types/index.ts)\<close>

text \<open>
  An \<open>ArrayElement\<close> is a JavaScript object \<open>{ value, id, state }\<close>. Element objects are
  shared by reference between the live array and the recorded steps, so they live in an
  explicit store: a list of objects, the address of an object being its position in the list.
  Allocation appends to the store. Values and indices are modelled as integers.
\<close>

datatype elem_state = Default | Comparing | Swapping | Sorted

record ArrayElement =
  el_value :: int
  el_id :: string
  el_state :: elem_state

type_synonym ref = nat
type_synonym store = "ArrayElement list"

text \<open>
  A \<open>SortingStep\<close> holds its own JavaScript array (never mutated after the push) of
  references to element objects; the optional fields are \<open>None\<close> when absent.
\<close>

record SortingStep =
  step_array :: "ref list"
  compareIndices :: "int list option"
  swapIndices :: "int list option"
  sortedIndices :: "int list option"
  description :: string

text \<open>What a consumer sees when it reads a step: the objects its array refers to, now.\<close>

definition snapshot :: "store \<Rightarrow> SortingStep \<Rightarrow> ArrayElement list" where
  "snapshot h st = map (\<lambda>a. h ! a) (step_array st)"

definition plain_step :: "ref list \<Rightarrow> string \<Rightarrow> SortingStep" where
  "plain_step a d = \<lparr>step_array = a, compareIndices = None, swapIndices = None,
     sortedIndices = None, description = d\<rparr>"

text \<open>The errors the code throws: the three \<open>Error\<close> messages of InstrumentedArray, and
  the runtime's TypeError (property access on undefined) and RangeError (invalid array length).\<close>

datatype error =
    IndexOutOfBounds int      \<comment> \<open>Error: Index i out of bounds\<close>
  | InvalidIndices int int    \<comment> \<open>Error: Invalid indices: i, j\<close>
  | InvalidRange int int      \<comment> \<open>Error: Invalid range: start to end\<close>
  | TypeError
  | RangeError

subsection \<open>JavaScript helpers\<close>

text \<open>Template-string rendering of an integer.\<close>

definition digit_char :: "nat \<Rightarrow> char" where
  "digit_char d = ''0123456789'' ! d"

fun show_nat :: "nat \<Rightarrow> string" where
  "show_nat n = (if n < 10 then [digit_char n] else show_nat (n div 10) @ [digit_char (n mod 10)])"

declare show_nat.simps [simp del]

definition show_int :: "int \<Rightarrow> string" where
  "show_int i = (if i < 0 then CHR ''-'' # show_nat (nat (- i)) else show_nat (nat i))"

text \<open>\<open>a || b\<close> on strings: the empty string is falsy.\<close>

definition js_or :: "string \<Rightarrow> string \<Rightarrow> string" where
  "js_or a b = (if a = [] then b else a)"

text \<open>\<open>array.map((el, idx) => ({ ...el, state: f(idx) }))\<close>: one fresh object per position,
  a copy of the object at that position with its state replaced.\<close>

definition map_states :: "(nat \<Rightarrow> elem_state) \<Rightarrow> store \<Rightarrow> ref list \<Rightarrow> store \<times> ref list" where
  "map_states f h arr =
     (h @ map (\<lambda>idx. (h ! (arr ! idx))\<lparr>el_state := f idx\<rparr>) [0..<length arr],
      [length h..<length h + length arr])"

text \<open>The destructuring assignment \<open>[a[i], a[j]] = [a[j], a[i]]\<close>: the right-hand side is
  read first, then position \<open>i\<close> and position \<open>j\<close> are written.\<close>

definition swap_refs :: "ref list \<Rightarrow> nat \<Rightarrow> nat \<Rightarrow> ref list" where
  "swap_refs a i j = a[i := a ! j, j := a ! i]"

text \<open>\<open>el.state = 'sorted'\<close> on the object at address \<open>a\<close>.\<close>

definition set_sorted :: "store \<Rightarrow> ref \<Rightarrow> store" where
  "set_sorted h a = h[a := (h ! a)\<lparr>el_state := Sorted\<rparr>]"

section \<open>InstrumentedArray\<close>

text \<open>The variables every trace producer works on: the store of element objects, the live
  array (\<open>this.array\<close>, or the local \<open>array\<close> of a built-in sort) and the steps pushed so
  far. An InstrumentedArray has the pending description in addition.\<close>

record trace_state =
  heap :: store
  array :: "ref list"
  steps :: "SortingStep list"

record InstrumentedArray = trace_state +
  stepDescription :: string

definition new_InstrumentedArray :: "ArrayElement list \<Rightarrow> InstrumentedArray" where
  "new_InstrumentedArray initialArray =
     (let a = [0..<length initialArray] in
      \<lparr>heap = map (\<lambda>el. el\<lparr>el_state := Default\<rparr>) initialArray,
       array = a,
       steps = [plain_step a ''Starting custom algorithm''],
       stepDescription = ''''\<rparr>)"

definition setStepDescription :: "string \<Rightarrow> InstrumentedArray \<Rightarrow> InstrumentedArray" where
  "setStepDescription d s = s\<lparr>stepDescription := d\<rparr>"

definition bad_index :: "InstrumentedArray \<Rightarrow> int \<Rightarrow> bool" where
  "bad_index s i = (i < 0 \<or> i \<ge> int (length (array s)))"

text \<open>The object at position \<open>i\<close> of the live array.\<close>

definition elem_at :: "InstrumentedArray \<Rightarrow> int \<Rightarrow> ArrayElement" where
  "elem_at s i = heap s ! (array s ! nat i)"

definition get :: "InstrumentedArray \<Rightarrow> int \<Rightarrow> error + int" where
  "get s index =
     (if bad_index s index then Inl (IndexOutOfBounds index) else Inr (el_value (elem_at s index)))"

text \<open>\<open>addStep(description?)\<close>: an absent description is the empty string here, both being
  falsy.\<close>

definition addStep :: "string \<Rightarrow> InstrumentedArray \<Rightarrow> InstrumentedArray" where
  "addStep d s =
     s\<lparr>steps := steps s @ [plain_step (array s) (js_or d (js_or (stepDescription s) ''Algorithm step''))],
       stepDescription := ''''\<rparr>"

text \<open>The default narratives, one per template string of the class.\<close>

definition set_text :: "int \<Rightarrow> int \<Rightarrow> string" where
  "set_text index v = ''Set element at index '' @ show_int index @ '' to '' @ show_int v"

definition compare_text :: "int \<Rightarrow> int \<Rightarrow> int \<Rightarrow> int \<Rightarrow> string" where
  "compare_text i j vi vj =
     ''Comparing elements at positions '' @ show_int i @ '' and '' @ show_int j @ '': ''
       @ show_int vi @ '' vs '' @ show_int vj"

text \<open>The arrow of the swap narrative is U+2194, three bytes in UTF-8.\<close>

definition arrow :: string where
  "arrow = [char_of (226::nat), char_of (134::nat), char_of (148::nat)]"

definition swapping_text :: "int \<Rightarrow> int \<Rightarrow> int \<Rightarrow> int \<Rightarrow> string" where
  "swapping_text i j vi vj =
     ''Swapping elements at positions '' @ show_int i @ '' and '' @ show_int j @ '': ''
       @ show_int vi @ '' '' @ arrow @ '' '' @ show_int vj"

definition swapped_text :: "int \<Rightarrow> int \<Rightarrow> int \<Rightarrow> int \<Rightarrow> string" where
  "swapped_text i j vi vj =
     ''Swapped! Position '' @ show_int i @ '' now has '' @ show_int vi @ '', position ''
       @ show_int j @ '' now has '' @ show_int vj"

definition sorted_text :: "int \<Rightarrow> int \<Rightarrow> string" where
  "sorted_text index v =
     ''Element at position '' @ show_int index @ '' ('' @ show_int v
       @ '') is now in its final sorted position''"

definition range_text :: "int \<Rightarrow> int \<Rightarrow> string" where
  "range_text start end =
     ''Elements from position '' @ show_int start @ '' to '' @ show_int end @ '' are now sorted''"

definition set_ia :: "InstrumentedArray \<Rightarrow> int \<Rightarrow> int \<Rightarrow> error + InstrumentedArray" where
  "set_ia s index v =
     (if bad_index s index then Inl (IndexOutOfBounds index)
      else Inr (addStep (set_text index v)
             (s\<lparr>heap := (heap s)[array s ! nat index := (elem_at s index)\<lparr>el_value := v\<rparr>]\<rparr>)))"


definition length_ia :: "InstrumentedArray \<Rightarrow> int" where
  "length_ia s = int (length (array s))"

definition compare :: "InstrumentedArray \<Rightarrow> int \<Rightarrow> int \<Rightarrow> error + (int \<times> InstrumentedArray)" where
  "compare s i j =
     (if bad_index s i \<or> bad_index s j then Inl (InvalidIndices i j)
      else
        let (h', compareArray) =
              map_states (\<lambda>idx. if int idx = i \<or> int idx = j then Comparing else Default)
                (heap s) (array s);
            st = \<lparr>step_array = compareArray, compareIndices = Some [i, j], swapIndices = None,
                  sortedIndices = None,
                  description = js_or (stepDescription s)
                    (compare_text i j (el_value (elem_at s i)) (el_value (elem_at s j)))\<rparr>
        in Inr (el_value (elem_at s i) - el_value (elem_at s j),
                s\<lparr>heap := h', steps := steps s @ [st], stepDescription := ''''\<rparr>))"

definition swap :: "InstrumentedArray \<Rightarrow> int \<Rightarrow> int \<Rightarrow> error + InstrumentedArray" where
  "swap s i j =
     (if bad_index s i \<or> bad_index s j then Inl (InvalidIndices i j)
      else if i = j then Inr s
      else
        let (h', swapArray) =
              map_states (\<lambda>idx. if int idx = i \<or> int idx = j then Swapping else Default)
                (heap s) (array s);
            st = \<lparr>step_array = swapArray, compareIndices = None, swapIndices = Some [i, j],
                  sortedIndices = None,
                  description = js_or (stepDescription s)
                    (swapping_text i j (el_value (elem_at s i)) (el_value (elem_at s j)))\<rparr>;
            s1 = s\<lparr>heap := h', steps := steps s @ [st]\<rparr>;
            s2 = s1\<lparr>array := swap_refs (array s1) (nat i) (nat j)\<rparr>
        in Inr (addStep (swapped_text i j (el_value (elem_at s2 i)) (el_value (elem_at s2 j))) s2))"

definition markSorted :: "InstrumentedArray \<Rightarrow> int \<Rightarrow> error + InstrumentedArray" where
  "markSorted s index =
     (if bad_index s index then Inl (IndexOutOfBounds index)
      else
        let s1 = s\<lparr>heap := set_sorted (heap s) (array s ! nat index)\<rparr>;
            st = \<lparr>step_array = array s1, compareIndices = None, swapIndices = None,
                  sortedIndices = Some [index],
                  description = js_or (stepDescription s1)
                    (sorted_text index (el_value (elem_at s1 index)))\<rparr>
        in Inr (s1\<lparr>steps := steps s1 @ [st], stepDescription := ''''\<rparr>))"

text \<open>The loop \<open>for (let i = start; i <= end; i++)\<close> of markRangeSorted, counted by the
  number of positions left.\<close>

fun mark_range :: "ref list \<Rightarrow> nat \<Rightarrow> nat \<Rightarrow> store \<Rightarrow> store" where
  "mark_range arr i 0 h = h"
| "mark_range arr i (Suc k) h = mark_range arr (Suc i) k (set_sorted h (arr ! i))"

definition markRangeSorted :: "InstrumentedArray \<Rightarrow> int \<Rightarrow> int \<Rightarrow> error + InstrumentedArray" where
  "markRangeSorted s start end =
     (if start < 0 \<or> end \<ge> int (length (array s)) \<or> start > end then Inl (InvalidRange start end)
      else
        let s1 = s\<lparr>heap := mark_range (array s) (nat start) (nat (end - start + 1)) (heap s)\<rparr>;
            st = \<lparr>step_array = array s1, compareIndices = None, swapIndices = None,
                  sortedIndices = Some [start..end],
                  description = js_or (stepDescription s1) (range_text start end)\<rparr>
        in Inr (s1\<lparr>steps := steps s1 @ [st], stepDescription := ''''\<rparr>))"

text \<open>\<open>getSteps\<close> allocates the objects of the trailing step; the fields of the
  InstrumentedArray itself are not assigned. The returned trace is read in the returned store.\<close>

definition getSteps :: "InstrumentedArray \<Rightarrow> SortingStep list \<times> InstrumentedArray" where
  "getSteps s =
     (let (h', finalArray) = map_states (\<lambda>idx. Sorted) (heap s) (array s);
          finalStep = plain_step finalArray ''Algorithm completed! All elements are sorted.''
      in (steps s @ [finalStep], s\<lparr>heap := h'\<rparr>))"

definition getValues :: "InstrumentedArray \<Rightarrow> int list" where
  "getValues s = map (\<lambda>a. el_value (heap s ! a)) (array s)"

definition toArray :: "InstrumentedArray \<Rightarrow> int list" where
  "toArray s = getValues s"

subsection \<open>Runs of operations\<close>

text \<open>A caller's sequence of calls on one InstrumentedArray; the first exception ends the
  run.\<close>

datatype op =
    OpGet int | OpSet int int | OpLength | OpCompare int int | OpSwap int int
  | OpMarkSorted int | OpMarkRangeSorted int int | OpSetStepDescription string
  | OpAddStep string | OpGetSteps | OpGetValues

fun exec :: "op \<Rightarrow> InstrumentedArray \<Rightarrow> error + InstrumentedArray" where
  "exec (OpGet i) s = map_sum id (\<lambda>_. s) (get s i)"
| "exec (OpSet i v) s = set_ia s i v"
| "exec OpLength s = Inr s"
| "exec (OpCompare i j) s = map_sum id snd (compare s i j)"
| "exec (OpSwap i j) s = swap s i j"
| "exec (OpMarkSorted i) s = markSorted s i"
| "exec (OpMarkRangeSorted a b) s = markRangeSorted s a b"
| "exec (OpSetStepDescription d) s = Inr (setStepDescription d s)"
| "exec (OpAddStep d) s = Inr (addStep d s)"
| "exec OpGetSteps s = Inr (snd (getSteps s))"
| "exec OpGetValues s = Inr s"

fun run_ops :: "InstrumentedArray \<Rightarrow> op list \<Rightarrow> error + InstrumentedArray" where
  "run_ops s [] = Inr s"
| "run_ops s (x # xs) = (case exec x s of Inl e \<Rightarrow> Inl e | Inr s' \<Rightarrow> run_ops s' xs)"

subsection \<open>Invariants of a run\<close>

definition refs_ok :: "store \<Rightarrow> ref list \<Rightarrow> bool" where
  "refs_ok h refs = (\<forall>a\<in>set refs. a < length h)"

definition wf_state :: "'a trace_state_scheme \<Rightarrow> bool" where
  "wf_state s = (refs_ok (heap s) (array s) \<and> (\<forall>st\<in>set (steps s). refs_ok (heap s) (step_array st)))"

text \<open>How a store may change during a run: it only grows, identities are never assigned,
  and a state that is \<open>Sorted\<close> stays so.\<close>

definition store_ext :: "store \<Rightarrow> store \<Rightarrow> bool" where
  "store_ext h h' = (length h \<le> length h' \<and>
     (\<forall>a<length h. el_id (h' ! a) = el_id (h ! a) \<and>
        (el_state (h ! a) = Sorted \<longrightarrow> el_state (h' ! a) = Sorted)))"

definition same_values :: "store \<Rightarrow> store \<Rightarrow> bool" where
  "same_values h h' = (length h \<le> length h' \<and> (\<forall>a<length h. el_value (h' ! a) = el_value (h ! a)))"

text \<open>The identities a list of references shows.\<close>

definition ids_of :: "store \<Rightarrow> ref list \<Rightarrow> string list" where
  "ids_of h refs = map (\<lambda>a. el_id (h ! a)) refs"

text \<open>What a well-behaved piece of a run does to the state: the store evolves by
  \<open>store_ext\<close>, the live array is permuted, recorded steps are kept, and every step it
  pushes refers to allocated objects that carry the identities of the live array.\<close>

definition frame :: "'a trace_state_scheme \<Rightarrow> 'b trace_state_scheme \<Rightarrow> bool" where
  "frame s s' = (store_ext (heap s) (heap s') \<and> mset (array s') = mset (array s) \<and>
     take (length (steps s)) (steps s') = steps s \<and>
     (\<forall>st\<in>set (drop (length (steps s)) (steps s')).
        refs_ok (heap s') (step_array st) \<and>
        mset (ids_of (heap s') (step_array st)) = mset (ids_of (heap s) (array s))))"

text \<open>Example inputs.\<close>

definition elem :: "int \<Rightarrow> string \<Rightarrow> ArrayElement" where
  "elem v i = \<lparr>el_value = v, el_id = i, el_state = Default\<rparr>"

definition ia53 :: InstrumentedArray where
  "ia53 = new_InstrumentedArray [elem 5 ''a'', elem 3 ''b'']"

text \<open>Reading a finished or failed run: the states, and the values, that each recorded step
  shows when it is read in the final store.\<close>

definition shown_states :: "error + 'a trace_state_scheme \<Rightarrow> elem_state list list" where
  "shown_states r =
     (case r of Inl e \<Rightarrow> [] | Inr s \<Rightarrow> map (\<lambda>st. map el_state (snapshot (heap s) st)) (steps s))"

definition shown_values :: "error + 'a trace_state_scheme \<Rightarrow> int list list" where
  "shown_values r =
     (case r of Inl e \<Rightarrow> [] | Inr s \<Rightarrow> map (\<lambda>st. map el_value (snapshot (heap s) st)) (steps s))"

definition shown_descriptions :: "error + 'a trace_state_scheme \<Rightarrow> string list" where
  "shown_descriptions r = (case r of Inl e \<Rightarrow> [] | Inr s \<Rightarrow> map description (steps s))"

text \<open>A step that snapshots the live array carries no compare or swap markers; the
  highlight steps of \<open>compare\<close> and \<open>swap\<close> do.\<close>

definition plain :: "SortingStep \<Rightarrow> bool" where
  "plain st = (compareIndices st = None \<and> swapIndices st = None)"

subsection \<open>Following an element through a run\<close>

text \<open>The position, after an operation that succeeded, of the element that was at position
  \<open>p\<close> before it: \<open>swap(i, j)\<close> exchanges the elements at \<open>i\<close> and \<open>j\<close>, and no other operation
  moves an element.\<close>

fun moved :: "op \<Rightarrow> int \<Rightarrow> int" where
  "moved (OpSwap i j) p = (if p = i then j else if p = j then i else p)"
| "moved x p = p"

definition track :: "op list \<Rightarrow> int \<Rightarrow> int" where
  "track xs p = fold moved xs p"

text \<open>The state a step shows at position \<open>p\<close> when it is read in the store \<open>h\<close>, and the states
  a highlight step of \<open>compare\<close> or \<open>swap\<close> is built with: \<open>m\<close> at the two positions and default
  at every other one.\<close>

definition shown_state :: "store \<Rightarrow> SortingStep \<Rightarrow> int \<Rightarrow> elem_state" where
  "shown_state h st p = el_state (snapshot h st ! nat p)"

definition highlight :: "elem_state \<Rightarrow> int \<Rightarrow> int \<Rightarrow> nat \<Rightarrow> elem_state list" where
  "highlight m a b n = map (\<lambda>idx. if int idx = a \<or> int idx = b then m else Default) [0..<n]"
section \<open>Built-in sorts\<close>

text \<open>
  Every built-in sort starts with \<open>const steps = []; const array = [...arr]\<close>: the local
  array holds the caller's element objects themselves, which are the first objects of the
  store. A sort returns its steps; they are read in the store the run ends with, so the
  model returns the whole final state. An exception loses the steps pushed so far.
\<close>

definition start_state :: "ArrayElement list \<Rightarrow> trace_state" where
  "start_state arr = \<lparr>heap = arr, array = [0..<length arr], steps = []\<rparr>"

text \<open>\<open>steps.push({ array: [...array], description: d })\<close>\<close>

definition push_plain :: "string \<Rightarrow> 'a trace_state_scheme \<Rightarrow> 'a trace_state_scheme" where
  "push_plain d s = s\<lparr>steps := steps s @ [plain_step (array s) d]\<rparr>"

text \<open>\<open>steps.push({ array: array.map((el, idx) => ({ ...el, state: f(idx) })), ... })\<close>\<close>

definition push_mapped ::
  "(nat \<Rightarrow> elem_state) \<Rightarrow> int list option \<Rightarrow> int list option \<Rightarrow> string \<Rightarrow>
     'a trace_state_scheme \<Rightarrow> 'a trace_state_scheme" where
  "push_mapped f ci si d s =
     (let (h', a') = map_states f (heap s) (array s)
      in s\<lparr>heap := h',
           steps := steps s @ [\<lparr>step_array = a', compareIndices = ci, swapIndices = si,
                                sortedIndices = None, description = d\<rparr>]\<rparr>)"

text \<open>\<open>array[i].value\<close>, \<open>[array[i], array[j]] = [array[j], array[i]]\<close> and
  \<open>array[i].state = 'sorted'\<close> on the local array.\<close>

definition value_at :: "'a trace_state_scheme \<Rightarrow> nat \<Rightarrow> int" where
  "value_at s i = el_value (heap s ! (array s ! i))"

definition swap_at :: "nat \<Rightarrow> nat \<Rightarrow> 'a trace_state_scheme \<Rightarrow> 'a trace_state_scheme" where
  "swap_at i j s = s\<lparr>array := swap_refs (array s) i j\<rparr>"

definition sorted_at :: "nat \<Rightarrow> 'a trace_state_scheme \<Rightarrow> 'a trace_state_scheme" where
  "sorted_at i s = s\<lparr>heap := set_sorted (heap s) (array s ! i)\<rparr>"

definition values_of :: "'a trace_state_scheme \<Rightarrow> int list" where
  "values_of s = map (\<lambda>a. el_value (heap s ! a)) (array s)"

subsection \<open>SimpleSorts.bubbleSort\<close>

text \<open>The body of the inner loop at position \<open>j\<close>.\<close>

definition bubble_step :: "nat \<Rightarrow> trace_state \<Rightarrow> trace_state" where
  "bubble_step j s =
     (let s1 = push_mapped (\<lambda>idx. if idx = j \<or> idx = j + 1 then Comparing else Default)
                 (Some [int j, int j + 1]) None
                 (compare_text (int j) (int j + 1) (value_at s j) (value_at s (j + 1))) s
      in if value_at s1 j > value_at s1 (j + 1) then
           let s2 = push_mapped (\<lambda>idx. if idx = j \<or> idx = j + 1 then Swapping else Default)
                      None (Some [int j, int j + 1])
                      (''Swapping '' @ show_int (value_at s1 j) @ '' and ''
                         @ show_int (value_at s1 (j + 1))) s1;
               s3 = swap_at j (j + 1) s2
           in push_plain (''After swap: '' @ show_int (value_at s3 j) @ '' and ''
                            @ show_int (value_at s3 (j + 1))) s3
         else s1)"

text \<open>\<open>for (let j = 0; j < n - i - 1; j++)\<close>: the position and the iterations left.\<close>

fun bubble_inner :: "nat \<Rightarrow> nat \<Rightarrow> trace_state \<Rightarrow> trace_state" where
  "bubble_inner j 0 s = s"
| "bubble_inner j (Suc k) s = bubble_inner (Suc j) k (bubble_step j s)"

text \<open>The end of a pass: the last element of the pass is marked and a step pushed.\<close>

definition bubble_mark :: "nat \<Rightarrow> trace_state \<Rightarrow> trace_state" where
  "bubble_mark p s =
     (let s1 = sorted_at p s
      in s1\<lparr>steps := steps s1 @ [\<lparr>step_array = array s1, compareIndices = None,
             swapIndices = None, sortedIndices = Some [int p],
             description = sorted_text (int p) (value_at s1 p)\<rparr>]\<rparr>)"

text \<open>\<open>for (let i = 0; i < n - 1; i++)\<close>: the pass and the passes left.\<close>

fun bubble_outer :: "nat \<Rightarrow> nat \<Rightarrow> nat \<Rightarrow> trace_state \<Rightarrow> trace_state" where
  "bubble_outer n i 0 s = s"
| "bubble_outer n i (Suc k) s =
     bubble_outer n (Suc i) k (bubble_mark (n - 1 - i) (bubble_inner 0 (n - i - 1) s))"

text \<open>On the empty input \<open>array[0]\<close> is undefined and \<open>array[0].state = 'sorted'\<close> throws.\<close>

definition bubbleSort :: "ArrayElement list \<Rightarrow> error + trace_state" where
  "bubbleSort arr =
     (let n = length arr;
          s1 = push_plain ''Starting Bubble Sort - Compare adjacent elements and swap if needed''
                 (start_state arr);
          s2 = bubble_outer n 0 (n - 1) s1
      in if n = 0 then Inl TypeError
         else Inr (push_plain ''Bubble Sort complete! All elements are sorted.'' (sorted_at 0 s2)))"

subsection \<open>NoveltySorts.miracleSort\<close>

text \<open>\<open>isSorted()\<close> of the novelty sorts: no adjacent pair is out of order.\<close>

fun is_sorted_values :: "int list \<Rightarrow> bool" where
  "is_sorted_values (x # y # zs) = (if y < x then False else is_sorted_values (y # zs))"
| "is_sorted_values zs = True"

definition isSorted :: "'a trace_state_scheme \<Rightarrow> bool" where
  "isSorted s = is_sorted_values (values_of s)"




subsection \<open>NoveltySorts.sleepSort\<close>





text \<open>Example inputs of the built-in sorts.\<close>

definition arr21 :: "ArrayElement list" where
  "arr21 = [elem 2 ''a'', elem 1 ''b'']"

subsection \<open>The loops of bubbleSort on the list of values\<close>

text \<open>What the loops of bubbleSort do to the values of the local array, with the store and
  the steps left out; the proofs relate them to the loops themselves.\<close>

definition vswap :: "int list \<Rightarrow> nat \<Rightarrow> nat \<Rightarrow> int list" where
  "vswap xs i j = xs[i := xs ! j, j := xs ! i]"

definition vstep :: "nat \<Rightarrow> int list \<Rightarrow> int list" where
  "vstep j xs = (if xs ! j > xs ! (j + 1) then vswap xs j (j + 1) else xs)"

fun vinner :: "nat \<Rightarrow> nat \<Rightarrow> int list \<Rightarrow> int list" where
  "vinner j 0 xs = xs"
| "vinner j (Suc k) xs = vinner (Suc j) k (vstep j xs)"



subsection \<open>NoveltySorts.bogoSort\<close>

text \<open>
  \<open>Math.random()\<close> is modelled by an explicit source: \<open>rnd k\<close> is the number the \<open>k\<close>-th call
  returns, a real in \<open>[0, 1)\<close>; the product and the floor are taken exactly. The sort threads
  the number of calls made so far.
\<close>

definition valid_random :: "(nat \<Rightarrow> real) \<Rightarrow> bool" where
  "valid_random rnd = (\<forall>k. 0 \<le> rnd k \<and> rnd k < 1)"

text \<open>\<open>for (let i = array.length - 1; i > 0; i--)\<close>: the argument of the first equation is
  the index \<open>i\<close> itself, which is never 0 in the body.\<close>

fun shuffle_loop :: "(nat \<Rightarrow> real) \<Rightarrow> nat \<Rightarrow> nat \<Rightarrow> trace_state \<Rightarrow> nat \<times> trace_state" where
  "shuffle_loop rnd 0 k s = (k, s)"
| "shuffle_loop rnd (Suc i) k s =
     (let j = nat \<lfloor>rnd k * (real (Suc i) + 1)\<rfloor>
      in shuffle_loop rnd i (Suc k) (swap_at (Suc i) j s))"

definition shuffling_text :: string where
  "shuffling_text = ''Randomly shuffling array...''"

definition shuffled_text :: string where
  "shuffled_text = ''Shuffle complete, checking if sorted...''"

definition gave_up_text :: string where
  "gave_up_text = ''Bogo Sort stopped after 50 attempts to prevent infinite loop!''"

definition shuffle :: "(nat \<Rightarrow> real) \<Rightarrow> nat \<Rightarrow> trace_state \<Rightarrow> nat \<times> trace_state" where
  "shuffle rnd k s =
     (case shuffle_loop rnd (length (array s) - 1) k (push_plain shuffling_text s) of
        (k', s') \<Rightarrow> (k', push_plain shuffled_text s'))"

text \<open>The \<open>while\<close> loop with its \<open>break\<close>; it returns the attempts made, the random numbers
  drawn and the state.\<close>

function bogo_loop ::
  "(nat \<Rightarrow> real) \<Rightarrow> nat \<Rightarrow> nat \<Rightarrow> trace_state \<Rightarrow> nat \<times> nat \<times> trace_state" where
  "bogo_loop rnd attempts k s =
     (if \<not> isSorted s \<and> attempts < 50 then
        (case shuffle rnd k s of
           (k', s') \<Rightarrow>
             if attempts + 1 \<ge> 50 then (attempts + 1, k', push_plain gave_up_text s')
             else bogo_loop rnd (attempts + 1) k' s')
      else (attempts, k, s))"
  by pat_completeness auto
termination
  by (relation "measure (\<lambda>(rnd, attempts, k, s). 50 - attempts)") auto

declare bogo_loop.simps [simp del]

definition success_text :: "nat \<Rightarrow> string" where
  "success_text attempts = ''Bogo Sort complete after '' @ show_nat attempts @ '' attempts! Pure luck!''"

definition bogoSort :: "(nat \<Rightarrow> real) \<Rightarrow> ArrayElement list \<Rightarrow> trace_state" where
  "bogoSort rnd arr =
     (let s1 = push_plain
                 ''Starting Bogo Sort - Randomly shuffle until sorted (THIS IS INEFFICIENT!)''
                 (start_state arr)
      in case bogo_loop rnd 0 0 s1 of
           (attempts, k, s2) \<Rightarrow>
             if isSorted s2 then push_mapped (\<lambda>idx. Sorted) None None (success_text attempts) s2
             else s2)"

text \<open>The number of shuffles a trace records.\<close>

definition shuffles :: "SortingStep list \<Rightarrow> nat" where
  "shuffles sts = length (filter (\<lambda>st. description st = shuffling_text) sts)"

section \<open>SpecializedSorts: the distribution sorts\<close>

text \<open>
  \<open>Math.max(...xs)\<close> and \<open>Math.min(...xs)\<close> are \<open>-Infinity\<close> and \<open>Infinity\<close> on the empty list,
  so the numbers computed from them are integers or one of the infinities.
\<close>

datatype jsnum = NegInf | Fin int | PosInf

definition math_max :: "int list \<Rightarrow> jsnum" where
  "math_max xs = (if xs = [] then NegInf else Fin (Max (set xs)))"

definition math_min :: "int list \<Rightarrow> jsnum" where
  "math_min xs = (if xs = [] then PosInf else Fin (Min (set xs)))"

text \<open>\<open>maxVal - minVal + 1\<close>. Both operands come from the same list, so they are both finite
  or they are \<open>-Infinity\<close> and \<open>Infinity\<close>, whose difference is \<open>-Infinity\<close>.\<close>

fun range_of :: "jsnum \<Rightarrow> jsnum \<Rightarrow> jsnum" where
  "range_of (Fin a) (Fin b) = Fin (a - b + 1)"
| "range_of mx mn = NegInf"

definition show_jsnum :: "jsnum \<Rightarrow> string" where
  "show_jsnum x = (case x of NegInf \<Rightarrow> ''-Infinity'' | PosInf \<Rightarrow> ''Infinity'' | Fin i \<Rightarrow> show_int i)"

text \<open>\<open>new Array(len).fill(0)\<close>: a length that is not an integer in \<open>[0, 2^32 - 1]\<close> raises
  RangeError.\<close>

definition new_Array_fill0 :: "jsnum \<Rightarrow> error + int list" where
  "new_Array_fill0 len =
     (case len of
        Fin k \<Rightarrow> if 0 \<le> k \<and> k \<le> 2 ^ 32 - 1 then Inr (replicate (nat k) 0) else Inl RangeError
      | _ \<Rightarrow> Inl RangeError)"

text \<open>\<open>{ ...array[i] }\<close>: a fresh copy of the object at position \<open>i\<close>.\<close>

definition copy_at :: "nat \<Rightarrow> trace_state \<Rightarrow> ref \<times> trace_state" where
  "copy_at i s = (length (heap s), s\<lparr>heap := heap s @ [heap s ! (array s ! i)]\<rparr>)"

subsection \<open>countingSort\<close>

text \<open>\<open>for (let i = 0; i < n; i++) { count[array[i].value - minVal]++; steps.push(...) }\<close>\<close>

fun counting_count :: "int \<Rightarrow> nat \<Rightarrow> nat \<Rightarrow> int list \<Rightarrow> trace_state \<Rightarrow> int list \<times> trace_state" where
  "counting_count mn i 0 cnt s = (cnt, s)"
| "counting_count mn i (Suc k) cnt s =
     (let v = value_at s i;
          cnt' = cnt[nat (v - mn) := cnt ! nat (v - mn) + 1];
          s' = push_mapped (\<lambda>idx. if idx = i then Comparing else Default) None None
                 (''Counting occurrences of '' @ show_int v) s
      in counting_count mn (Suc i) k cnt' s')"

text \<open>\<open>for (let i = 1; i < range; i++) count[i] += count[i - 1]\<close>\<close>

fun accumulate :: "nat \<Rightarrow> nat \<Rightarrow> int list \<Rightarrow> int list" where
  "accumulate i 0 cnt = cnt"
| "accumulate i (Suc k) cnt = accumulate (Suc i) k (cnt[i := cnt ! i + cnt ! (i - 1)])"

text \<open>
  \<open>for (let i = n - 1; i >= 0; i--)\<close>: the first argument is \<open>i + 1\<close>. The output array
  starts as \<open>new Array(n)\<close>, all holes. A count of a value that occurs is at least 1 when its
  element is placed, so the index \<open>count - 1\<close> is never negative.
\<close>

fun counting_build ::
  "int \<Rightarrow> nat \<Rightarrow> int list \<Rightarrow> ref option list \<Rightarrow> trace_state \<Rightarrow> int list \<times> ref option list \<times> trace_state" where
  "counting_build mn 0 cnt out s = (cnt, out, s)"
| "counting_build mn (Suc i) cnt out s =
     (let v = value_at s i;
          c = cnt ! nat (v - mn);
          (r, s') = copy_at i s
      in counting_build mn i (cnt[nat (v - mn) := c - 1]) (out[nat (c - 1) := Some r]) s')"

text \<open>\<open>for (let i = 0; i < n; i++) { array[i] = output[i]; steps.push(...) }\<close>: a hole would
  make \<open>array[i].value\<close> throw.\<close>

fun counting_place :: "nat \<Rightarrow> nat \<Rightarrow> ref option list \<Rightarrow> trace_state \<Rightarrow> error + trace_state" where
  "counting_place i 0 out s = Inr s"
| "counting_place i (Suc k) out s =
     (case out ! i of
        None \<Rightarrow> Inl TypeError
      | Some r \<Rightarrow>
          counting_place (Suc i) k out
            (push_plain (''Placing '' @ show_int (el_value (heap s ! r)) @ '' in its final position'')
               (s\<lparr>array := (array s)[i := r]\<rparr>)))"

definition countingSort :: "ArrayElement list \<Rightarrow> error + trace_state" where
  "countingSort arr =
     (let n = length arr;
          s1 = push_plain ''Starting Counting Sort - Non-comparison sort using frequency counting''
                 (start_state arr);
          maxVal = math_max (values_of s1);
          minVal = math_min (values_of s1);
          range = range_of maxVal minVal;
          s2 = push_plain (''Range determined: '' @ show_jsnum minVal @ '' to '' @ show_jsnum maxVal
                             @ '' ('' @ show_jsnum range @ '' values)'') s1
      in case new_Array_fill0 range of
           Inl e \<Rightarrow> Inl e
         | Inr count0 \<Rightarrow>
             (let mn = (case minVal of Fin m \<Rightarrow> m | _ \<Rightarrow> 0);
                  (count1, s3) = counting_count mn 0 n count0 s2;
                  count2 = accumulate 1 (length count0 - 1) count1;
                  (count3, output, s4) = counting_build mn n count2 (replicate n None) s3
              in case counting_place 0 n output s4 of
                   Inl e \<Rightarrow> Inl e
                 | Inr s5 \<Rightarrow>
                     Inr (push_mapped (\<lambda>idx. Sorted) None None
                       ''Counting Sort complete! Non-comparison sorting achieved linear time.'' s5)))"

subsection \<open>radixSort\<close>

text \<open>
  The digit of a value at the divider \<open>exp\<close>, \<open>Math.floor(value / exp) % 10\<close>. The model follows
  the code for the values it is meant for, the non-negative integers: for a negative value
  JavaScript's \<open>%\<close> gives a negative digit, with which the code indexes \<open>count\<close>, and that path
  is not modelled. Every statement below about a run with a digit pass assumes non-negative
  values.
\<close>

definition digit_of :: "int \<Rightarrow> nat \<Rightarrow> nat" where
  "digit_of v divider = nat ((v div int divider) mod 10)"

fun digit_count :: "nat \<Rightarrow> nat \<Rightarrow> nat \<Rightarrow> int list \<Rightarrow> trace_state \<Rightarrow> int list" where
  "digit_count divider i 0 cnt s = cnt"
| "digit_count divider i (Suc k) cnt s =
     digit_count divider (Suc i) k (cnt[digit_of (value_at s i) divider := cnt ! digit_of (value_at s i) divider + 1]) s"

fun digit_build ::
  "nat \<Rightarrow> nat \<Rightarrow> int list \<Rightarrow> ref option list \<Rightarrow> trace_state \<Rightarrow> int list \<times> ref option list \<times> trace_state" where
  "digit_build divider 0 cnt out s = (cnt, out, s)"
| "digit_build divider (Suc i) cnt out s =
     (let d = digit_of (value_at s i) divider;
          c = cnt ! d;
          (r, s') = copy_at i s
      in digit_build divider i (cnt[d := c - 1]) (out[nat (c - 1) := Some r]) s')"

text \<open>\<open>for (let i = 0; i < n; i++) array[i] = output[i]\<close>; a hole left in the array makes the
  next read of \<open>array[i].value\<close> throw, here at once.\<close>

fun copy_back :: "nat \<Rightarrow> nat \<Rightarrow> ref option list \<Rightarrow> trace_state \<Rightarrow> error + trace_state" where
  "copy_back i 0 out s = Inr s"
| "copy_back i (Suc k) out s =
     (case out ! i of
        None \<Rightarrow> Inl TypeError
      | Some r \<Rightarrow> copy_back (Suc i) k out (s\<lparr>array := (array s)[i := r]\<rparr>))"

text \<open>\<open>countingSortByDigit(exp)\<close> with \<open>exp = 10 ^ pos\<close>; the narrative prints
  \<open>Math.log10(exp)\<close>, which is \<open>pos\<close>.\<close>

definition countingSortByDigit :: "nat \<Rightarrow> trace_state \<Rightarrow> error + trace_state" where
  "countingSortByDigit pos s =
     (let divider = 10 ^ pos;
          n = length (array s);
          s1 = push_plain (''Sorting by digit at position '' @ show_nat pos @ '' (divider: ''
                             @ show_nat divider @ '')'') s;
          count1 = digit_count divider 0 n (replicate 10 0) s1;
          count2 = accumulate 1 9 count1;
          (count3, output, s2) = digit_build divider n count2 (replicate n None) s1
      in case copy_back 0 n output s2 of
           Inl e \<Rightarrow> Inl e
         | Inr s3 \<Rightarrow> Inr (push_plain (''Sorted by digit at position '' @ show_nat pos) s3))"

text \<open>\<open>for (let exp = 1; Math.floor(maxVal / exp) > 0; exp *= 10)\<close>, counted by the position
  of the digit.\<close>

function radix_loop :: "int \<Rightarrow> nat \<Rightarrow> trace_state \<Rightarrow> error + trace_state" where
  "radix_loop maxVal pos s =
     (if maxVal div int (10 ^ pos) > 0 then
        (case countingSortByDigit pos s of
           Inl e \<Rightarrow> Inl e
         | Inr s' \<Rightarrow> radix_loop maxVal (Suc pos) s')
      else Inr s)"
  by pat_completeness auto

termination
proof (relation "measure (\<lambda>(maxVal, pos, s). nat maxVal - pos)")
  show "wf (measure (\<lambda>(maxVal, pos, s). nat maxVal - pos))" by simp
next
  fix maxVal :: int and pos :: nat and s x2 :: trace_state
  assume "0 < maxVal div int (10 ^ pos)"
  moreover have "0 < int (10 ^ pos)" by simp
  ultimately have "int (10 ^ pos) \<le> maxVal"
    by (simp only: pos_imp_zdiv_pos_iff)
  moreover have "pos < 10 ^ pos" by (rule power_gt_expt) simp
  ultimately have "pos < nat maxVal" by linarith
  then show "((maxVal, Suc pos, x2), (maxVal, pos, s)) \<in> measure (\<lambda>(maxVal, pos, s). nat maxVal - pos)"
    by simp
qed

declare radix_loop.simps [simp del]

definition radixSort :: "ArrayElement list \<Rightarrow> error + trace_state" where
  "radixSort arr =
     (let s1 = push_plain
                 ''Starting Radix Sort - Sort by individual digits from least to most significant''
                 (start_state arr)
      in case (case math_max (values_of s1) of
                 Fin m \<Rightarrow> radix_loop m 0 s1
               | _ \<Rightarrow> Inr s1) of
           Inl e \<Rightarrow> Inl e
         | Inr s2 \<Rightarrow>
             Inr (push_mapped (\<lambda>idx. Sorted) None None
               ''Radix Sort complete! Sorted all digits from least to most significant.'' s2))"

subsection \<open>bucketSort\<close>

text \<open>\<open>Math.floor(Math.sqrt(n))\<close>\<close>

function sqrt_loop :: "nat \<Rightarrow> nat \<Rightarrow> nat" where
  "sqrt_loop n k = (if (k + 1) * (k + 1) \<le> n then sqrt_loop n (k + 1) else k)"
  by pat_completeness auto
termination
proof (relation "measure (\<lambda>(n, k). n - k)")
  show "wf (measure (\<lambda>(n, k). n - k))" by simp
next
  fix n k :: nat
  assume "(k + 1) * (k + 1) \<le> n"
  moreover have "k + 1 \<le> (k + 1) * (k + 1)" by simp
  ultimately have "k < n" by linarith
  then show "((n, k + 1), (n, k)) \<in> measure (\<lambda>(n, k). n - k)" by simp
qed

declare sqrt_loop.simps [simp del]

definition floor_sqrt :: "nat \<Rightarrow> nat" where
  "floor_sqrt n = sqrt_loop n 0"

text \<open>\<open>x.toFixed(2)\<close> of a non-negative number, rounded half up on the exact value (the
  rounding of the floating-point quotient is not modelled).\<close>

definition to_fixed2 :: "rat \<Rightarrow> string" where
  "to_fixed2 x =
     (let c = nat \<lfloor>x * 100 + 1 / 2\<rfloor>
      in show_nat (c div 100) @ ''.'' @ [digit_char (c mod 100 div 10), digit_char (c mod 10)])"

text \<open>The bucket of a value: \<open>Math.min(Math.floor((value - minVal) / bucketSize), bucketCount - 1)\<close>\<close>

definition bucket_index :: "int \<Rightarrow> int \<Rightarrow> rat \<Rightarrow> nat \<Rightarrow> nat" where
  "bucket_index v minVal bucketSize bucketCount =
     min (nat \<lfloor>rat_of_int (v - minVal) / bucketSize\<rfloor>) (bucketCount - 1)"

fun distribute ::
  "int \<Rightarrow> rat \<Rightarrow> nat \<Rightarrow> nat \<Rightarrow> nat \<Rightarrow> ref list list \<Rightarrow> trace_state \<Rightarrow> ref list list \<times> trace_state" where
  "distribute mn bsize cnt i 0 buckets s = (buckets, s)"
| "distribute mn bsize cnt i (Suc k) buckets s =
     (let bucketIndex = bucket_index (value_at s i) mn bsize cnt;
          (r, s1) = copy_at i s;
          buckets' = buckets[bucketIndex := buckets ! bucketIndex @ [r]];
          s2 = push_mapped (\<lambda>idx. if idx = i then Comparing else Default) None None
                 (''Placing '' @ show_int (value_at s1 i) @ '' into bucket '' @ show_nat bucketIndex) s1
      in distribute mn bsize cnt (Suc i) k buckets' s2)"

text \<open>The insertion sort of one bucket. \<open>shift_right\<close> is the \<open>while\<close> loop, its counter being
  \<open>k + 1\<close>; it returns the position for the key.\<close>

fun shift_right :: "(ref \<Rightarrow> int) \<Rightarrow> int \<Rightarrow> nat \<Rightarrow> ref list \<Rightarrow> nat \<times> ref list" where
  "shift_right val kv 0 b = (0, b)"
| "shift_right val kv (Suc k) b =
     (if val (b ! k) > kv then shift_right val kv k (b[Suc k := b ! k]) else (Suc k, b))"

fun bucket_insertion :: "(ref \<Rightarrow> int) \<Rightarrow> nat \<Rightarrow> nat \<Rightarrow> ref list \<Rightarrow> ref list" where
  "bucket_insertion val j 0 b = b"
| "bucket_insertion val j (Suc k) b =
     (let key = b ! j;
          (p, b') = shift_right val (val key) j b
      in bucket_insertion val (Suc j) k (b'[p := key]))"

text \<open>\<open>for (let j = 0; j < bucket.length; j++) { array[index] = bucket[j]; index++ }\<close>\<close>

fun place_bucket :: "ref list \<Rightarrow> nat \<Rightarrow> ref list \<Rightarrow> nat \<times> ref list" where
  "place_bucket [] index a = (index, a)"
| "place_bucket (r # rs) index a = place_bucket rs (Suc index) (a[index := r])"

fun collect :: "nat \<Rightarrow> ref list list \<Rightarrow> nat \<Rightarrow> trace_state \<Rightarrow> trace_state" where
  "collect i [] index s = s"
| "collect i (bucket # rest) index s =
     (if length bucket > 0 then
        (let sorted_bucket =
               bucket_insertion (\<lambda>r. el_value (heap s ! r)) 1 (length bucket - 1) bucket;
             (index', a') = place_bucket sorted_bucket index (array s);
             s' = push_plain (''Sorted and placed bucket '' @ show_nat i @ '' back into array'')
                    (s\<lparr>array := a'\<rparr>)
         in collect (Suc i) rest index' s')
      else collect (Suc i) rest index s)"

definition bucketSort :: "ArrayElement list \<Rightarrow> trace_state" where
  "bucketSort arr =
     (let n = length arr;
          s0 = start_state arr
      in if n \<le> 1 then
           push_mapped (\<lambda>idx. Sorted) None None
             ''Bucket Sort complete! Array already sorted (1 or fewer elements).'' s0
         else
           (let s1 = push_plain
                       ''Starting Bucket Sort - Distribute elements into buckets then sort each bucket''
                       s0;
                maxVal = Max (set (values_of s1));
                minVal = Min (set (values_of s1));
                bucketCount = floor_sqrt n;
                bucketSize = rat_of_int (maxVal - minVal + 1) / rat_of_nat bucketCount;
                s2 = push_plain (''Creating '' @ show_nat bucketCount @ '' buckets with size ''
                                   @ to_fixed2 bucketSize) s1;
                (buckets, s3) = distribute minVal bucketSize bucketCount 0 n
                                  (replicate bucketCount []) s2;
                s4 = collect 0 buckets 0 s3
            in push_mapped (\<lambda>idx. Sorted) None None
                 ''Bucket Sort complete! All buckets sorted and concatenated.'' s4))"

text \<open>Example inputs of the distribution sorts.\<close>

definition arr_wide :: "ArrayElement list" where
  "arr_wide = [elem 0 ''a'', elem 4294967296 ''b'']"

section \<open>Invariants used in the proofs\<close>



text \<open>A state whose store is the input and whose steps are plain snapshots of permutations
  of the input positions.\<close>

definition bogo_inv :: "ArrayElement list \<Rightarrow> trace_state \<Rightarrow> bool" where
  "bogo_inv arr s = (heap s = arr \<and> mset (array s) = mset [0..<length arr] \<and>
     (\<forall>st\<in>set (steps s). mset (step_array st) = mset [0..<length arr]))"

text \<open>The narratives the loop can push.\<close>

definition loop_text :: "string \<Rightarrow> bool" where
  "loop_text d = (d = shuffling_text \<or> d = shuffled_text \<or> d = gave_up_text)"


text \<open>The objects allocated after the first \<open>n\<close> are kept as they are, and the live array
  refers to the first \<open>n\<close> objects only.\<close>

definition copies_kept :: "nat \<Rightarrow> store \<Rightarrow> store \<Rightarrow> bool" where
  "copies_kept n h h' = (length h \<le> length h' \<and> (\<forall>a. n \<le> a \<and> a < length h \<longrightarrow> h' ! a = h ! a))"

definition live_low :: "nat \<Rightarrow> 'a trace_state_scheme \<Rightarrow> bool" where
  "live_low n s = (\<forall>a\<in>set (array s). a < n)"
section \<open>Store and reference lemmas\<close>

lemma store_ext_refl [simp]: "store_ext h h"
  by (simp add: store_ext_def)

lemma store_ext_trans: "store_ext h1 h2 \<Longrightarrow> store_ext h2 h3 \<Longrightarrow> store_ext h1 h3"
  by (auto simp: store_ext_def)

lemma store_ext_length: "store_ext h h' \<Longrightarrow> length h \<le> length h'"
  by (simp add: store_ext_def)

lemma same_values_refl [simp]: "same_values h h"
  by (simp add: same_values_def)

lemma same_values_trans: "same_values h1 h2 \<Longrightarrow> same_values h2 h3 \<Longrightarrow> same_values h1 h3"
  by (auto simp: same_values_def)

lemma refs_ok_mono: "refs_ok h refs \<Longrightarrow> length h \<le> length h' \<Longrightarrow> refs_ok h' refs"
  by (auto simp: refs_ok_def)

lemma refs_ok_perm: "mset refs' = mset refs \<Longrightarrow> refs_ok h refs' = refs_ok h refs"
  by (auto simp: refs_ok_def dest: mset_eq_setD)

lemma ids_of_store_ext: "refs_ok h refs \<Longrightarrow> store_ext h h' \<Longrightarrow> ids_of h' refs = ids_of h refs"
  by (simp add: ids_of_def refs_ok_def store_ext_def)

lemma mset_ids_of_perm: "mset refs' = mset refs \<Longrightarrow> mset (ids_of h refs') = mset (ids_of h refs)"
  unfolding ids_of_def by (metis mset_map)

lemma length_fst_map_states [simp]:
  "length (fst (map_states f h arr)) = length h + length arr"
  by (simp add: map_states_def)

lemma snd_map_states [simp]:
  "snd (map_states f h arr) = [length h..<length h + length arr]"
  by (simp add: map_states_def)

lemma fst_map_states_old [simp]:
  "a < length h \<Longrightarrow> fst (map_states f h arr) ! a = h ! a"
  by (simp add: map_states_def nth_append)

lemma fst_map_states_new [simp]:
  "k < length arr \<Longrightarrow>
     fst (map_states f h arr) ! (length h + k) = (h ! (arr ! k))\<lparr>el_state := f k\<rparr>"
  by (simp add: map_states_def nth_append)

lemma map_states_snapshot:
  "map (\<lambda>a. fst (map_states f h arr) ! a) [length h..<length h + length arr] =
     map (\<lambda>idx. (h ! (arr ! idx))\<lparr>el_state := f idx\<rparr>) [0..<length arr]"
  by (rule nth_equalityI) simp_all

lemma store_ext_map_states [simp]: "store_ext h (fst (map_states f h arr))"
  by (simp add: store_ext_def)

lemma same_values_map_states [simp]: "same_values h (fst (map_states f h arr))"
  by (simp add: same_values_def)

lemma refs_ok_map_states_new [simp]:
  "refs_ok (fst (map_states f h arr)) [length h..<length h + length arr]"
  by (simp add: refs_ok_def)

lemma ids_of_map_states_new [simp]:
  "ids_of (fst (map_states f h arr)) [length h..<length h + length arr] = ids_of h arr"
  unfolding ids_of_def by (rule nth_equalityI) simp_all

lemma length_set_sorted [simp]: "length (set_sorted h a) = length h"
  by (simp add: set_sorted_def)

lemma nth_set_sorted:
  "b < length h \<Longrightarrow> set_sorted h a ! b = (if b = a then (h ! b)\<lparr>el_state := Sorted\<rparr> else h ! b)"
  by (simp add: set_sorted_def nth_list_update)

lemma store_ext_set_sorted [simp]: "store_ext h (set_sorted h a)"
  by (simp add: store_ext_def nth_set_sorted)

lemma same_values_set_sorted [simp]: "same_values h (set_sorted h a)"
  by (simp add: same_values_def nth_set_sorted)

lemma length_mark_range [simp]: "length (mark_range arr i k h) = length h"
  by (induction arr i k h rule: mark_range.induct) simp_all

lemma store_ext_mark_range [simp]: "store_ext h (mark_range arr i k h)"
proof (induction arr i k h rule: mark_range.induct)
  case (2 arr i k h)
  have "store_ext h (set_sorted h (arr ! i))" by simp
  from store_ext_trans [OF this 2] show ?case by simp
qed simp

lemma same_values_mark_range [simp]: "same_values h (mark_range arr i k h)"
proof (induction arr i k h rule: mark_range.induct)
  case (2 arr i k h)
  have "same_values h (set_sorted h (arr ! i))" by simp
  from same_values_trans [OF this 2] show ?case by simp
qed simp

lemma store_ext_set_value [simp]: "store_ext h (h[a := (h ! a)\<lparr>el_value := v\<rparr>])"
proof -
  have "el_id (h[a := (h ! a)\<lparr>el_value := v\<rparr>] ! b) = el_id (h ! b) \<and>
        el_state (h[a := (h ! a)\<lparr>el_value := v\<rparr>] ! b) = el_state (h ! b)" if "b < length h" for b
    using that by (cases "b = a") simp_all
  then show ?thesis by (simp add: store_ext_def)
qed

lemma mset_swap_refs [simp]:
  "i < length a \<Longrightarrow> j < length a \<Longrightarrow> mset (swap_refs a i j) = mset a"
  unfolding swap_refs_def by (rule mset_swap)

lemma length_swap_refs [simp]: "length (swap_refs a i j) = length a"
  by (simp add: swap_refs_def)

lemma set_swap_refs [simp]:
  "i < length a \<Longrightarrow> j < length a \<Longrightarrow> set (swap_refs a i j) = set a"
  by (rule mset_eq_setD) simp

section \<open>Frames\<close>

lemma take_prefix_trans:
  assumes "take (length xs) ys = xs" "take (length ys) zs = ys"
  shows "take (length xs) zs = xs"
proof -
  have "length xs \<le> length ys" using assms(1) by (metis length_take min.cobounded1 min.commute)
  then have "take (length xs) zs = take (length xs) (take (length ys) zs)" by (simp add: min_def)
  with assms show ?thesis by simp
qed

lemma prefix_split:
  assumes "take (length xs) ys = xs"
  shows "ys = xs @ drop (length xs) ys"
  using assms by (metis append_take_drop_id)

lemma frame_refl [simp]: "frame s s"
  by (simp add: frame_def)

lemma frame_wf:
  assumes "frame s s'" "wf_state s"
  shows "wf_state s'"
proof -
  have len: "length (heap s) \<le> length (heap s')"
    using assms(1) by (simp add: frame_def store_ext_def)
  have "steps s' = steps s @ drop (length (steps s)) (steps s')"
    using assms(1) by (intro prefix_split) (simp add: frame_def)
  then have "set (steps s') = set (steps s) \<union> set (drop (length (steps s)) (steps s'))"
    by (metis set_append)
  moreover have "refs_ok (heap s') (array s')"
    using assms len refs_ok_perm [of "array s'" "array s" "heap s'"]
    by (auto simp: frame_def wf_state_def intro: refs_ok_mono)
  ultimately show ?thesis
    using assms len by (auto simp: wf_state_def frame_def intro: refs_ok_mono)
qed

lemma frame_live_ids:
  assumes "frame s s'" "wf_state s"
  shows "mset (ids_of (heap s') (array s')) = mset (ids_of (heap s) (array s))"
proof -
  have "mset (ids_of (heap s') (array s')) = mset (ids_of (heap s') (array s))"
    using assms(1) by (intro mset_ids_of_perm) (simp add: frame_def)
  also have "ids_of (heap s') (array s) = ids_of (heap s) (array s)"
    using assms by (intro ids_of_store_ext) (simp_all add: frame_def wf_state_def)
  finally show ?thesis .
qed

lemma frame_trans:
  assumes wf: "wf_state s1" and f12: "frame s1 s2" and f23: "frame s2 s3"
  shows "frame s1 s3"
proof -
  have wf2: "wf_state s2" using f12 wf by (rule frame_wf)
  have pre: "take (length (steps s1)) (steps s3) = steps s1"
    using f12 f23 by (auto simp: frame_def intro: take_prefix_trans)
  define n2 where "n2 = drop (length (steps s1)) (steps s2)"
  define n3 where "n3 = drop (length (steps s2)) (steps s3)"
  have s2: "steps s2 = steps s1 @ n2"
    unfolding n2_def using f12 by (intro prefix_split) (simp add: frame_def)
  have s3: "steps s3 = steps s2 @ n3"
    unfolding n3_def using f23 by (intro prefix_split) (simp add: frame_def)
  have "steps s3 = steps s1 @ n2 @ n3"
    unfolding s3 s2 by simp
  then have "drop (length (steps s1)) (steps s3) = n2 @ n3"
    by simp
  then have new: "set (drop (length (steps s1)) (steps s3)) =
        set (drop (length (steps s1)) (steps s2)) \<union> set (drop (length (steps s2)) (steps s3))"
    by (simp add: n2_def n3_def)
  have ext23: "store_ext (heap s2) (heap s3)" using f23 by (simp add: frame_def)
  have "refs_ok (heap s3) (step_array st) \<and>
        mset (ids_of (heap s3) (step_array st)) = mset (ids_of (heap s1) (array s1))"
    if "st \<in> set (drop (length (steps s1)) (steps s3))" for st
  proof -
    from that new consider
      (old) "st \<in> set (drop (length (steps s1)) (steps s2))" |
      (new) "st \<in> set (drop (length (steps s2)) (steps s3))" by auto
    then show ?thesis
    proof cases
      case old
      then have ok: "refs_ok (heap s2) (step_array st)"
        and ids: "mset (ids_of (heap s2) (step_array st)) = mset (ids_of (heap s1) (array s1))"
        using f12 by (simp_all add: frame_def)
      from ok ext23 have "ids_of (heap s3) (step_array st) = ids_of (heap s2) (step_array st)"
        by (rule ids_of_store_ext)
      with ok ids ext23 show ?thesis
        by (auto intro: refs_ok_mono store_ext_length)
    next
      case new
      then have "refs_ok (heap s3) (step_array st)"
        and "mset (ids_of (heap s3) (step_array st)) = mset (ids_of (heap s2) (array s2))"
        using f23 by (simp_all add: frame_def)
      with frame_live_ids [OF f12 wf] show ?thesis by simp
    qed
  qed
  with pre f12 f23 show ?thesis
    by (auto simp: frame_def intro: store_ext_trans)
qed


section \<open>InstrumentedArray: what each operation does\<close>

lemma frameI:
  assumes "store_ext (heap s) (heap s')" "mset (array s') = mset (array s)"
    "take (length (steps s)) (steps s') = steps s"
    "\<forall>st\<in>set (drop (length (steps s)) (steps s')).
        refs_ok (heap s') (step_array st) \<and>
        mset (ids_of (heap s') (step_array st)) = mset (ids_of (heap s) (array s))"
  shows "frame s s'"
  using assms by (simp add: frame_def)

lemma live_refs_ok: "wf_state s \<Longrightarrow> store_ext (heap s) h' \<Longrightarrow> refs_ok h' (array s)"
  by (auto simp: wf_state_def intro: refs_ok_mono store_ext_length)

lemma live_ids_of: "wf_state s \<Longrightarrow> store_ext (heap s) h' \<Longrightarrow> ids_of h' (array s) = ids_of (heap s) (array s)"
  by (auto simp: wf_state_def intro: ids_of_store_ext)

lemma refs_ok_swap_refs [simp]:
  "i < length a \<Longrightarrow> j < length a \<Longrightarrow> refs_ok h (swap_refs a i j) = refs_ok h a"
  by (simp add: refs_ok_def)

lemma ids_of_swap_refs [simp]:
  "i < length a \<Longrightarrow> j < length a \<Longrightarrow> mset (ids_of h (swap_refs a i j)) = mset (ids_of h a)"
  by (rule mset_ids_of_perm) simp

lemma frame_addStep: "wf_state s \<Longrightarrow> frame s (addStep d s)"
  by (rule frameI) (simp_all add: addStep_def plain_step_def wf_state_def)

lemma frame_setStepDescription [simp]: "frame s (setStepDescription d s)"
  by (rule frameI) (simp_all add: setStepDescription_def)

lemma frame_live_step:
  assumes "wf_state s" "store_ext (heap s) (heap s')" "mset (array s') = mset (array s)"
    "take (length (steps s)) (steps s') = steps s"
    "\<forall>st\<in>set (drop (length (steps s)) (steps s')).
        mset (step_array st) = mset (array s) \<or>
        (refs_ok (heap s') (step_array st) \<and>
         mset (ids_of (heap s') (step_array st)) = mset (ids_of (heap s) (array s)))"
  shows "frame s s'"
proof (rule frameI)
  have ok: "refs_ok (heap s') (array s)"
    using assms(1,2) by (rule live_refs_ok)
  have ids: "ids_of (heap s') (array s) = ids_of (heap s) (array s)"
    using assms(1,2) by (rule live_ids_of)
  show "\<forall>st\<in>set (drop (length (steps s)) (steps s')).
        refs_ok (heap s') (step_array st) \<and>
        mset (ids_of (heap s') (step_array st)) = mset (ids_of (heap s) (array s))"
  proof
    fix st assume "st \<in> set (drop (length (steps s)) (steps s'))"
    with assms(5) consider "mset (step_array st) = mset (array s)"
      | "refs_ok (heap s') (step_array st) \<and>
         mset (ids_of (heap s') (step_array st)) = mset (ids_of (heap s) (array s))"
      by blast
    then show "refs_ok (heap s') (step_array st) \<and>
        mset (ids_of (heap s') (step_array st)) = mset (ids_of (heap s) (array s))"
    proof cases
      case 1
      from ok have "refs_ok (heap s') (step_array st)" unfolding refs_ok_perm [OF 1] .
      moreover from 1 have "mset (ids_of (heap s') (step_array st)) = mset (ids_of (heap s') (array s))"
        by (rule mset_ids_of_perm)
      ultimately show ?thesis using ids by simp
    qed
  qed
qed (use assms in simp_all)

lemma frame_set_ia: "wf_state s \<Longrightarrow> set_ia s i v = Inr s' \<Longrightarrow> frame s s'"
  by (rule frame_live_step)
     (auto simp: set_ia_def addStep_def plain_step_def elem_at_def split: if_splits)

lemma frame_compare: "wf_state s \<Longrightarrow> compare s i j = Inr (r, s') \<Longrightarrow> frame s s'"
  by (rule frame_live_step) (auto simp: compare_def split_def Let_def split: if_splits)

lemma frame_markSorted: "wf_state s \<Longrightarrow> markSorted s i = Inr s' \<Longrightarrow> frame s s'"
  by (rule frame_live_step) (auto simp: markSorted_def Let_def split: if_splits)

lemma frame_markRangeSorted: "wf_state s \<Longrightarrow> markRangeSorted s a b = Inr s' \<Longrightarrow> frame s s'"
  by (rule frame_live_step) (auto simp: markRangeSorted_def Let_def split: if_splits)

lemma frame_getSteps: "frame s (snd (getSteps s))"
  by (rule frameI) (auto simp: getSteps_def split_def Let_def)

lemma frame_swap: "wf_state s \<Longrightarrow> swap s i j = Inr s' \<Longrightarrow> frame s s'"
  by (rule frame_live_step)
     (auto simp: swap_def split_def Let_def addStep_def plain_step_def bad_index_def
        split: if_splits)

lemma frame_exec: "wf_state s \<Longrightarrow> exec x s = Inr s' \<Longrightarrow> frame s s'"
proof (cases x)
  case (OpGet i)
  assume "exec x s = Inr s'"
  with OpGet show ?thesis by (cases "get s i") auto
next
  case (OpCompare i j)
  assume "wf_state s" "exec x s = Inr s'"
  with OpCompare show ?thesis by (cases "compare s i j") (auto dest: frame_compare)
qed (auto simp: frame_set_ia frame_markSorted frame_markRangeSorted frame_getSteps frame_swap
      frame_addStep)

lemma frame_run_ops: "wf_state s \<Longrightarrow> run_ops s xs = Inr s' \<Longrightarrow> frame s s'"
proof (induction xs arbitrary: s)
  case (Cons x xs)
  from Cons.prems obtain s1 where x: "exec x s = Inr s1" and xs: "run_ops s1 xs = Inr s'"
    by (auto split: sum.splits)
  have f1: "frame s s1" using Cons.prems(1) x by (rule frame_exec)
  then have "wf_state s1" using Cons.prems(1) by (rule frame_wf)
  then have "frame s1 s'" using xs by (rule Cons.IH)
  with Cons.prems(1) f1 show ?case by (rule frame_trans)
qed simp

lemma wf_new: "wf_state (new_InstrumentedArray els)"
  by (simp add: wf_state_def new_InstrumentedArray_def plain_step_def Let_def refs_ok_def)

lemma wf_reachable: "run_ops (new_InstrumentedArray els) xs = Inr s \<Longrightarrow> wf_state s"
  using frame_run_ops [OF wf_new] frame_wf wf_new by blast

lemma getValues_same:
  "wf_state s \<Longrightarrow> same_values (heap s) (heap s') \<Longrightarrow> array s' = array s \<Longrightarrow>
     getValues s' = getValues s"
  by (simp add: getValues_def wf_state_def refs_ok_def same_values_def)

lemma new_InstrumentedArray_simps [simp]:
  "heap (new_InstrumentedArray els) = map (\<lambda>el. el\<lparr>el_state := Default\<rparr>) els"
  "array (new_InstrumentedArray els) = [0..<length els]"
  "steps (new_InstrumentedArray els) = [plain_step [0..<length els] ''Starting custom algorithm'']"
  "stepDescription (new_InstrumentedArray els) = []"
  by (simp_all add: new_InstrumentedArray_def Let_def)

lemma upt_2 [simp]: "[0..<2] = [0, 1]"
  by (simp add: upt_rec)

lemma ia53_simps [simp]:
  "heap ia53 = [elem 5 ''a'', elem 3 ''b'']"
  "array ia53 = [0, 1]"
  "steps ia53 = [plain_step [0, 1] ''Starting custom algorithm'']"
  "stepDescription ia53 = []"
  by (simp_all add: ia53_def elem_def)

lemma getSteps_last:
  "snapshot (heap (snd (getSteps s))) (last (fst (getSteps s))) =
     map (\<lambda>a. (heap s ! a)\<lparr>el_state := Sorted\<rparr>) (array s)"
proof -
  have "snapshot (heap (snd (getSteps s))) (last (fst (getSteps s))) =
       map (\<lambda>idx. (heap s ! (array s ! idx))\<lparr>el_state := Sorted\<rparr>) [0..<length (array s)]"
    by (simp add: getSteps_def split_def Let_def snapshot_def plain_step_def map_states_snapshot)
  also have "\<dots> = map (\<lambda>a. (heap s ! a)\<lparr>el_state := Sorted\<rparr>) (array s)"
    by (rule nth_equalityI) simp_all
  finally show ?thesis .
qed

lemma getSteps_last_sorted:
  "\<forall>e\<in>set (snapshot (heap (snd (getSteps s))) (last (fst (getSteps s)))). el_state e = Sorted"
  by (auto simp: getSteps_last)

section \<open>Claims about the InstrumentedArray\<close>

lemma show_int_digit [simp]:
  "show_int 0 = ''0''" "show_int 1 = ''1''" "show_int 2 = ''2''" "show_int 3 = ''3''"
  "show_int 5 = ''5''" "show_int 7 = ''7''" "show_int 9 = ''9''"
  by (simp_all add: show_int_def show_nat.simps digit_char_def)

lemma getValues_perm:
  assumes "wf_state s" "same_values (heap s) (heap s')" "mset (array s') = mset (array s)"
  shows "mset (getValues s') = mset (getValues s)"
proof -
  have "mset (getValues s') = image_mset (\<lambda>a. el_value (heap s' ! a)) (mset (array s))"
    unfolding getValues_def using assms(3) by (metis mset_map)
  also have "\<dots> = image_mset (\<lambda>a. el_value (heap s ! a)) (mset (array s))"
    using assms(1,2)
    by (intro image_mset_cong) (simp add: wf_state_def refs_ok_def same_values_def)
  also have "\<dots> = mset (getValues s)"
    unfolding getValues_def by (metis mset_map)
  finally show ?thesis .
qed




text \<open>
  Claim C9. For every container reached by a finite sequence of operations, \<open>getSteps\<close>
  returns the recorded steps, each read unchanged, followed by exactly one trailing step
  whose snapshot is the live array with every element marked sorted, whatever the order of
  the values; so the returned trace is non-empty and its last step marks every element sorted.
\<close>

theorem getSteps_trailing_step:
  assumes "run_ops (new_InstrumentedArray els) ops = Inr s"
  shows "\<exists>final. fst (getSteps s) = steps s @ [final] \<and>
     description final = ''Algorithm completed! All elements are sorted.'' \<and>
     (\<forall>st\<in>set (steps s). snapshot (heap (snd (getSteps s))) st = snapshot (heap s) st) \<and>
     snapshot (heap (snd (getSteps s))) final =
       map (\<lambda>a. (heap s ! a)\<lparr>el_state := Sorted\<rparr>) (array s) \<and>
     (\<forall>e\<in>set (snapshot (heap (snd (getSteps s))) (last (fst (getSteps s)))). el_state e = Sorted)"
proof -
  have wf: "wf_state s" using assms by (rule wf_reachable)
  define final where "final = plain_step [length (heap s)..<length (heap s) + length (array s)]
     ''Algorithm completed! All elements are sorted.''"
  have tr: "fst (getSteps s) = steps s @ [final]"
    by (simp add: getSteps_def split_def Let_def final_def)
  have h: "heap (snd (getSteps s)) = fst (map_states (\<lambda>idx. Sorted) (heap s) (array s))"
    by (simp add: getSteps_def split_def Let_def)
  have old: "snapshot (heap (snd (getSteps s))) st = snapshot (heap s) st" if "st \<in> set (steps s)" for st
    using wf that by (simp add: h snapshot_def wf_state_def refs_ok_def)
  have "snapshot (heap (snd (getSteps s))) final =
       map (\<lambda>idx. (heap s ! (array s ! idx))\<lparr>el_state := Sorted\<rparr>) [0..<length (array s)]"
    by (simp add: h snapshot_def final_def plain_step_def map_states_snapshot)
  also have "\<dots> = map (\<lambda>a. (heap s ! a)\<lparr>el_state := Sorted\<rparr>) (array s)"
    by (rule nth_equalityI) simp_all
  finally have fin: "snapshot (heap (snd (getSteps s))) final =
       map (\<lambda>a. (heap s ! a)\<lparr>el_state := Sorted\<rparr>) (array s)" .
  have "description final = ''Algorithm completed! All elements are sorted.''"
    by (simp add: final_def plain_step_def)
  with tr old fin show ?thesis by auto
qed

text \<open>
  Witness of C9: the container holding 5 and 3, in that order, is not in ascending order,
  and its trailing step marks both elements sorted.
\<close>

theorem getSteps_trailing_step_witness:
  "run_ops (new_InstrumentedArray [elem 5 ''a'', elem 3 ''b'']) [] = Inr ia53 \<and>
   getValues ia53 = [5, 3] \<and>
   (\<exists>final. fst (getSteps ia53) = steps ia53 @ [final] \<and>
      map el_state (snapshot (heap (snd (getSteps ia53))) final) = [Sorted, Sorted])"
proof -
  have r0: "run_ops (new_InstrumentedArray [elem 5 ''a'', elem 3 ''b'']) [] = Inr ia53"
    by (simp add: ia53_def)
  have v: "getValues ia53 = [5, 3]" by (simp add: getValues_def elem_def)
  from getSteps_trailing_step [OF r0] obtain final where
    "fst (getSteps ia53) = steps ia53 @ [final]"
    "snapshot (heap (snd (getSteps ia53))) final =
       map (\<lambda>a. (heap ia53 ! a)\<lparr>el_state := Sorted\<rparr>) (array ia53)"
    by blast
  with r0 v show ?thesis by auto
qed

text \<open>
  Claim C10. In every container reached by a finite sequence of operations, \<open>compare\<close>,
  \<open>markSorted\<close>, \<open>markRangeSorted\<close>, \<open>setStepDescription\<close>, \<open>addStep\<close> and \<open>getSteps\<close> leave
  \<open>getValues()\<close> unchanged element for element, and \<open>swap\<close> leaves it a permutation of what
  it was; \<open>set\<close> is the only operation left that can change the multiset of values.
\<close>

theorem values_preserved:
  assumes "run_ops (new_InstrumentedArray els) ops = Inr s"
  shows "(\<forall>i j r s'. compare s i j = Inr (r, s') \<longrightarrow> getValues s' = getValues s) \<and>
         (\<forall>i s'. markSorted s i = Inr s' \<longrightarrow> getValues s' = getValues s) \<and>
         (\<forall>a b s'. markRangeSorted s a b = Inr s' \<longrightarrow> getValues s' = getValues s) \<and>
         (\<forall>d. getValues (setStepDescription d s) = getValues s) \<and>
         (\<forall>d. getValues (addStep d s) = getValues s) \<and>
         getValues (snd (getSteps s)) = getValues s \<and>
         (\<forall>i j s'. swap s i j = Inr s' \<longrightarrow> mset (getValues s') = mset (getValues s))"
proof -
  have wf: "wf_state s" using assms by (rule wf_reachable)
  have 1: "getValues s' = getValues s" if "compare s i j = Inr (r, s')" for i j r s'
    using that by (intro getValues_same wf) (auto simp: compare_def split_def Let_def split: if_splits)
  have 2: "getValues s' = getValues s" if "markSorted s i = Inr s'" for i s'
    using that by (intro getValues_same wf) (auto simp: markSorted_def Let_def split: if_splits)
  have 3: "getValues s' = getValues s" if "markRangeSorted s a b = Inr s'" for a b s'
    using that by (intro getValues_same wf) (auto simp: markRangeSorted_def Let_def split: if_splits)
  have 4: "getValues (setStepDescription d s) = getValues s" for d
    by (simp add: getValues_def setStepDescription_def)
  have 5: "getValues (addStep d s) = getValues s" for d
    by (simp add: getValues_def addStep_def)
  have 6: "getValues (snd (getSteps s)) = getValues s"
    by (intro getValues_same wf) (simp_all add: getSteps_def split_def Let_def)
  have 7: "mset (getValues s') = mset (getValues s)" if "swap s i j = Inr s'" for i j s'
    using that by (intro getValues_perm wf)
      (auto simp: swap_def split_def Let_def addStep_def bad_index_def split: if_splits)
  from 1 2 3 4 5 6 7 show ?thesis by blast
qed

text \<open>
  Witness of C10 on the container holding 5 and 3.
\<close>

theorem values_preserved_witness:
  "run_ops (new_InstrumentedArray [elem 5 ''a'', elem 3 ''b'']) [] = Inr ia53 \<and>
   (\<exists>s'. compare ia53 0 1 = Inr (2, s') \<and> getValues s' = [5, 3]) \<and>
   (\<exists>s'. markSorted ia53 0 = Inr s' \<and> getValues s' = [5, 3]) \<and>
   (\<exists>s'. markRangeSorted ia53 0 1 = Inr s' \<and> getValues s' = [5, 3]) \<and>
   (\<exists>s'. swap ia53 0 1 = Inr s' \<and> mset (getValues s') = {#5, 3#})"
proof -
  have r0: "run_ops (new_InstrumentedArray [elem 5 ''a'', elem 3 ''b'']) [] = Inr ia53"
    by (simp add: ia53_def)
  have v: "getValues ia53 = [5, 3]" by (simp add: getValues_def elem_def)
  have c: "\<exists>s'. compare ia53 0 1 = Inr (2, s')"
    by (simp add: compare_def bad_index_def split_def Let_def elem_at_def elem_def)
  have m: "\<exists>s'. markSorted ia53 0 = Inr s'"
    by (simp add: markSorted_def bad_index_def Let_def)
  have mr: "\<exists>s'. markRangeSorted ia53 0 1 = Inr s'"
    by (simp add: markRangeSorted_def Let_def)
  have sw: "\<exists>s'. swap ia53 0 1 = Inr s'"
    by (simp add: swap_def bad_index_def split_def Let_def)
  from values_preserved [OF r0] r0 v c m mr sw show ?thesis
    by (metis mset.simps(1) mset.simps(2))
qed

subsection \<open>An element marked sorted\<close>

lemma copies_kept_refl [simp]: "copies_kept n h h"
  by (simp add: copies_kept_def)

lemma copies_kept_trans: "copies_kept n h1 h2 \<Longrightarrow> copies_kept n h2 h3 \<Longrightarrow> copies_kept n h1 h3"
  by (auto simp: copies_kept_def)

lemma copies_kept_map_states [simp]: "copies_kept n h (fst (map_states f h arr))"
  by (simp add: copies_kept_def)

lemma copies_kept_update: "a < n \<Longrightarrow> copies_kept n h (h[a := x])"
  by (simp add: copies_kept_def)

lemma copies_kept_set_sorted: "a < n \<Longrightarrow> copies_kept n h (set_sorted h a)"
  by (simp add: set_sorted_def copies_kept_update)

lemma copies_kept_mark_range:
  "\<forall>idx. i \<le> idx \<and> idx < i + k \<longrightarrow> arr ! idx < n \<Longrightarrow> copies_kept n h (mark_range arr i k h)"
proof (induction arr i k h rule: mark_range.induct)
  case (2 arr i k h)
  have "copies_kept n h (set_sorted h (arr ! i))"
    using 2(2) by (intro copies_kept_set_sorted) simp
  moreover have "copies_kept n (set_sorted h (arr ! i)) (mark_range arr (Suc i) k (set_sorted h (arr ! i)))"
    using 2(2) by (intro 2(1)) simp
  ultimately show ?case by (simp add: copies_kept_trans)
qed simp

lemma live_low_nth: "live_low n s \<Longrightarrow> i < length (array s) \<Longrightarrow> array s ! i < n"
  by (simp add: live_low_def)

lemma copies_kept_exec:
  assumes "exec x s = Inr s'" "live_low n s"
  shows "copies_kept n (heap s) (heap s')"
proof (cases x)
  case (OpGet i)
  with assms show ?thesis by (cases "get s i") auto
next
  case (OpSet i v)
  with assms show ?thesis
    by (auto simp: set_ia_def addStep_def bad_index_def live_low_nth copies_kept_update
        split: if_splits)
next
  case (OpCompare i j)
  with assms show ?thesis
    by (cases "compare s i j") (auto simp: compare_def split_def Let_def split: if_splits)
next
  case (OpSwap i j)
  with assms show ?thesis
    by (auto simp: swap_def split_def Let_def addStep_def split: if_splits)
next
  case (OpMarkSorted i)
  with assms show ?thesis
    by (auto simp: markSorted_def Let_def bad_index_def live_low_nth copies_kept_set_sorted
        split: if_splits)
next
  case (OpMarkRangeSorted a b)
  with assms show ?thesis
    by (auto simp: markRangeSorted_def Let_def live_low_nth intro!: copies_kept_mark_range
        split: if_splits)
qed (use assms in \<open>auto simp: setStepDescription_def addStep_def getSteps_def split_def Let_def\<close>)

lemma live_low_frame: "frame s s' \<Longrightarrow> live_low n s \<Longrightarrow> live_low n s'"
  unfolding live_low_def frame_def by (metis mset_eq_setD)

lemma copies_kept_run_ops:
  "wf_state s \<Longrightarrow> run_ops s xs = Inr s' \<Longrightarrow> live_low n s \<Longrightarrow> copies_kept n (heap s) (heap s')"
proof (induction xs arbitrary: s)
  case (Cons x xs)
  from Cons.prems obtain s1 where x: "exec x s = Inr s1" and xs: "run_ops s1 xs = Inr s'"
    by (auto split: sum.splits)
  have f1: "frame s s1" using Cons.prems(1) x by (rule frame_exec)
  then have wf1: "wf_state s1" using Cons.prems(1) by (rule frame_wf)
  have l1: "live_low n s1" using f1 Cons.prems(3) by (rule live_low_frame)
  from copies_kept_exec [OF x Cons.prems(3)] Cons.IH [OF wf1 xs l1] show ?case
    by (rule copies_kept_trans)
qed simp

lemma moved_ref:
  assumes "exec x s = Inr s'" "\<not> bad_index s p"
  shows "\<not> bad_index s' (moved x p) \<and> array s' ! nat (moved x p) = array s ! nat p"
proof (cases x)
  case (OpGet i)
  with assms show ?thesis by (cases "get s i") auto
next
  case (OpCompare i j)
  with assms show ?thesis
    by (cases "compare s i j") (auto simp: compare_def split_def Let_def bad_index_def split: if_splits)
next
  case (OpSwap i j)
  show ?thesis
  proof (cases "i = j")
    case True
    with assms OpSwap show ?thesis by (auto simp: swap_def split: if_splits)
  next
    case False
    from assms OpSwap False have ok: "0 \<le> i" "i < int (length (array s))" "0 \<le> j" "j < int (length (array s))"
      and a: "array s' = swap_refs (array s) (nat i) (nat j)"
      by (auto simp: swap_def split_def Let_def addStep_def bad_index_def split: if_splits)
    from ok False have ne: "nat i \<noteq> nat j" by auto
    from assms(2) have p: "0 \<le> p" "p < int (length (array s))" by (auto simp: bad_index_def)
    show ?thesis using ok ne p False OpSwap
      by (auto simp: a bad_index_def swap_refs_def nth_list_update)
  qed
qed (use assms in \<open>auto simp: set_ia_def markSorted_def markRangeSorted_def addStep_def
      setStepDescription_def getSteps_def split_def Let_def bad_index_def split: if_splits\<close>)

lemma track_ref:
  "run_ops s xs = Inr s' \<Longrightarrow> \<not> bad_index s p \<Longrightarrow>
     \<not> bad_index s' (track xs p) \<and> array s' ! nat (track xs p) = array s ! nat p"
proof (induction xs arbitrary: s p)
  case Nil
  then show ?case by (simp add: track_def)
next
  case (Cons x xs)
  from Cons.prems obtain s1 where x: "exec x s = Inr s1" and xs: "run_ops s1 xs = Inr s'"
    by (auto split: sum.splits)
  from moved_ref [OF x Cons.prems(2)] have 1: "\<not> bad_index s1 (moved x p)"
    and 2: "array s1 ! nat (moved x p) = array s ! nat p" by simp_all
  from Cons.IH [OF xs 1] 2 show ?case by (simp add: track_def)
qed

lemma track_snoc: "track (xs @ [x]) p = moved x (track xs p)"
  by (simp add: track_def)

lemma plain_steps_exec:
  "exec x s = Inr s' \<Longrightarrow> st \<in> set (drop (length (steps s)) (steps s')) \<Longrightarrow> plain st \<Longrightarrow>
     step_array st = array s'"
proof (cases x)
  case (OpGet i)
  assume "exec x s = Inr s'" "st \<in> set (drop (length (steps s)) (steps s'))"
  with OpGet show ?thesis by (cases "get s i") auto
next
  case (OpCompare i j)
  assume "exec x s = Inr s'" "st \<in> set (drop (length (steps s)) (steps s'))" "plain st"
  with OpCompare show ?thesis
    by (cases "compare s i j")
       (auto simp: compare_def split_def Let_def plain_def split: if_splits)
next
  case (OpSwap i j)
  assume "exec x s = Inr s'" "st \<in> set (drop (length (steps s)) (steps s'))" "plain st"
  with OpSwap show ?thesis
    by (auto simp: swap_def split_def Let_def plain_def addStep_def plain_step_def
        bad_index_def split: if_splits)
qed (auto simp: set_ia_def markSorted_def markRangeSorted_def addStep_def
      setStepDescription_def getSteps_def split_def Let_def plain_step_def split: if_splits)

lemma map_states_shown:
  "map (\<lambda>a. el_state (fst (map_states f h arr) ! a)) [length h..<length h + length arr] =
     map f [0..<length arr]"
  by (rule nth_equalityI) simp_all

text \<open>A step with markers is a highlight step: its objects are fresh copies, built with the
  states of \<open>highlight\<close>.\<close>

lemma highlight_fresh:
  assumes "exec x s = Inr s'" "st \<in> set (drop (length (steps s)) (steps s'))" "\<not> plain st"
  shows "\<forall>r\<in>set (step_array st). length (heap s) \<le> r \<and> r < length (heap s')"
proof (cases x)
  case (OpGet i)
  with assms show ?thesis by (cases "get s i") auto
next
  case (OpCompare i j)
  with assms show ?thesis
    by (cases "compare s i j") (auto simp: compare_def split_def Let_def split: if_splits)
next
  case (OpSwap i j)
  with assms show ?thesis
    by (auto simp: swap_def split_def Let_def plain_def addStep_def plain_step_def split: if_splits)
qed (use assms in \<open>auto simp: set_ia_def markSorted_def markRangeSorted_def addStep_def
      setStepDescription_def getSteps_def split_def Let_def plain_step_def plain_def split: if_splits\<close>)

lemma compare_steps_exec:
  assumes "exec x s = Inr s'" "st \<in> set (drop (length (steps s)) (steps s'))"
    "compareIndices st = Some [a, b]"
  shows "map el_state (snapshot (heap s') st) = highlight Comparing a b (length (array s))"
proof (cases x)
  case (OpGet i)
  with assms show ?thesis by (cases "get s i") auto
next
  case (OpCompare i j)
  with assms show ?thesis
    by (cases "compare s i j")
       (auto simp: compare_def split_def Let_def snapshot_def map_states_shown
          highlight_def o_def split: if_splits)
next
  case (OpSwap i j)
  with assms show ?thesis
    by (auto simp: swap_def split_def Let_def addStep_def plain_step_def split: if_splits)
qed (use assms in \<open>auto simp: set_ia_def markSorted_def markRangeSorted_def addStep_def
      setStepDescription_def getSteps_def split_def Let_def plain_step_def split: if_splits\<close>)

lemma swap_steps_exec:
  assumes "exec x s = Inr s'" "st \<in> set (drop (length (steps s)) (steps s'))"
    "swapIndices st = Some [a, b]"
  shows "map el_state (snapshot (heap s') st) = highlight Swapping a b (length (array s))"
proof (cases x)
  case (OpGet i)
  with assms show ?thesis by (cases "get s i") auto
next
  case (OpCompare i j)
  with assms show ?thesis
    by (cases "compare s i j") (auto simp: compare_def split_def Let_def split: if_splits)
next
  case (OpSwap i j)
  with assms show ?thesis
    by (auto simp: swap_def split_def Let_def addStep_def plain_step_def snapshot_def
        map_states_shown highlight_def o_def split: if_splits)
qed (use assms in \<open>auto simp: set_ia_def markSorted_def markRangeSorted_def addStep_def
      setStepDescription_def getSteps_def split_def Let_def plain_step_def split: if_splits\<close>)

lemma sorted_kept:
  "store_ext h h' \<Longrightarrow> a < length h \<Longrightarrow> el_state (h ! a) = Sorted \<Longrightarrow> el_state (h' ! a) = Sorted"
  by (simp add: store_ext_def)

lemma snapshot_kept:
  assumes "copies_kept n h h'" "\<forall>r\<in>set (step_array st). n \<le> r \<and> r < length h"
  shows "snapshot h' st = snapshot h st"
  using assms by (simp add: snapshot_def copies_kept_def)

lemma reachable_live:
  assumes "run_ops (new_InstrumentedArray els) xs = Inr s"
  shows "live_low (length els) s \<and> length (array s) = length els \<and> length els \<le> length (heap s)"
proof -
  have f: "frame (new_InstrumentedArray els) s"
    using wf_new assms by (rule frame_run_ops)
  have "live_low (length els) (new_InstrumentedArray els)" by (simp add: live_low_def)
  with f have 1: "live_low (length els) s" by (rule live_low_frame)
  from f have "mset (array s) = mset [0..<length els]" by (simp add: frame_def)
  then have 2: "length (array s) = length els" by (metis length_upt mset_eq_length minus_nat.diff_0)
  from f have 3: "length els \<le> length (heap s)" by (simp add: frame_def store_ext_def)
  from 1 2 3 show ?thesis by simp
qed

lemma frame_array_length: "frame s s' \<Longrightarrow> length (array s') = length (array s)"
  unfolding frame_def by (metis mset_eq_length)

text \<open>
  Claim C5 (as amended). \<open>markSorted(i)\<close> fails with the error "Index i out of bounds" on an
  invalid index. Otherwise it appends one step with \<open>sortedIndices = [i]\<close> and no compare or
  swap markers, leaves the values as they are, and the element it marks stays sorted for the
  remainder of the run, at whatever index swaps move it to (\<open>track\<close>): after any further
  operations the live element at that index has state sorted, the step of \<open>markSorted\<close> still
  shows sorted at \<open>i\<close>, the trailing step of \<open>getSteps\<close> marks every element sorted, and every
  step a later operation appends without compare or swap markers shows, whenever it is read
  afterwards, state sorted at the index the element has after that operation. The highlight
  step of \<open>compare(a, b)\<close> and the first step of \<open>swap(a, b)\<close> show comparing (swapping) at
  \<open>a\<close> and \<open>b\<close> and default at every other index, also for an element marked sorted.
\<close>

theorem markSorted_spec:
  assumes "run_ops (new_InstrumentedArray els) ops = Inr s"
  shows "(bad_index s i \<longrightarrow> markSorted s i = Inl (IndexOutOfBounds i)) \<and>
    (\<not> bad_index s i \<longrightarrow>
       (\<exists>s1 st. markSorted s i = Inr s1 \<and> steps s1 = steps s @ [st] \<and>
          sortedIndices st = Some [i] \<and> plain st \<and> getValues s1 = getValues s \<and>
          (\<forall>ops' s2. run_ops s1 ops' = Inr s2 \<longrightarrow>
             \<not> bad_index s2 (track ops' i) \<and>
             el_state (elem_at s2 (track ops' i)) = Sorted \<and>
             shown_state (heap s2) st i = Sorted \<and>
             (\<forall>e\<in>set (snapshot (heap (snd (getSteps s2))) (last (fst (getSteps s2)))).
                 el_state e = Sorted) \<and>
             (\<forall>x s3 ops'' s4 st'.
                 exec x s2 = Inr s3 \<and> run_ops s3 ops'' = Inr s4 \<and>
                 st' \<in> set (drop (length (steps s2)) (steps s3)) \<longrightarrow>
                   (plain st' \<longrightarrow> shown_state (heap s4) st' (track (ops' @ [x]) i) = Sorted) \<and>
                   (\<forall>a b. compareIndices st' = Some [a, b] \<longrightarrow>
                      map el_state (snapshot (heap s4) st') = highlight Comparing a b (length els)) \<and>
                   (\<forall>a b. swapIndices st' = Some [a, b] \<longrightarrow>
                      map el_state (snapshot (heap s4) st') = highlight Swapping a b (length els))))))"
proof (intro conjI impI)
  assume "bad_index s i"
  then show "markSorted s i = Inl (IndexOutOfBounds i)" by (simp add: markSorted_def)
next
  assume ok: "\<not> bad_index s i"
  define n where "n = length els"
  have wf: "wf_state s" using assms by (rule wf_reachable)
  from reachable_live [OF assms] have low: "live_low n s" and len: "length (array s) = n"
    and hn: "n \<le> length (heap s)" by (simp_all add: n_def)
  define a where "a = array s ! nat i"
  define st where "st = \<lparr>step_array = array s, compareIndices = None, swapIndices = None,
     sortedIndices = Some [i],
     description = js_or (stepDescription s)
       (sorted_text i (el_value (elem_at (s\<lparr>heap := set_sorted (heap s) a\<rparr>) i)))\<rparr>"
  define s1 where "s1 = s\<lparr>heap := set_sorted (heap s) a, steps := steps s @ [st], stepDescription := []\<rparr>"
  have m: "markSorted s i = Inr s1"
    using ok by (simp add: markSorted_def Let_def s1_def st_def a_def)
  have f1: "frame s s1" using wf m by (rule frame_markSorted)
  have wf1: "wf_state s1" using f1 wf by (rule frame_wf)
  have low1: "live_low n s1" using f1 low by (rule live_low_frame)
  have i: "nat i < length (array s)" using ok by (auto simp: bad_index_def)
  then have alt: "a < length (heap s)" using wf by (auto simp: wf_state_def refs_ok_def a_def)
  have a1: "a < length (heap s1)" using alt by (simp add: s1_def)
  have st1: "el_state (heap s1 ! a) = Sorted" using alt by (simp add: s1_def nth_set_sorted)
  have ok1: "\<not> bad_index s1 i" using ok by (simp add: bad_index_def s1_def)
  have arr1: "array s1 ! nat i = a" by (simp add: s1_def a_def)
  have vals: "getValues s1 = getValues s"
    by (rule getValues_same [OF wf]) (simp_all add: s1_def)
  have later: "\<not> bad_index s2 (track ops' i) \<and>
             el_state (elem_at s2 (track ops' i)) = Sorted \<and>
             shown_state (heap s2) st i = Sorted \<and>
             (\<forall>e\<in>set (snapshot (heap (snd (getSteps s2))) (last (fst (getSteps s2)))).
                 el_state e = Sorted) \<and>
             (\<forall>x s3 ops'' s4 st'.
                 exec x s2 = Inr s3 \<and> run_ops s3 ops'' = Inr s4 \<and>
                 st' \<in> set (drop (length (steps s2)) (steps s3)) \<longrightarrow>
                   (plain st' \<longrightarrow> shown_state (heap s4) st' (track (ops' @ [x]) i) = Sorted) \<and>
                   (\<forall>a b. compareIndices st' = Some [a, b] \<longrightarrow>
                      map el_state (snapshot (heap s4) st') = highlight Comparing a b n) \<and>
                   (\<forall>a b. swapIndices st' = Some [a, b] \<longrightarrow>
                      map el_state (snapshot (heap s4) st') = highlight Swapping a b n))"
    if run: "run_ops s1 ops' = Inr s2" for ops' s2
  proof -
    have f2: "frame s1 s2" using wf1 run by (rule frame_run_ops)
    have wf2: "wf_state s2" using f2 wf1 by (rule frame_wf)
    have low2: "live_low n s2" using f2 low1 by (rule live_low_frame)
    have len2: "length (array s2) = n"
      using frame_array_length [OF f2] frame_array_length [OF f1] len by simp
    have e2: "store_ext (heap s1) (heap s2)" using f2 by (simp add: frame_def)
    have hn2: "n \<le> length (heap s2)"
      using hn store_ext_length [OF e2] by (simp add: s1_def)
    from track_ref [OF run ok1] arr1 have p2: "\<not> bad_index s2 (track ops' i)"
      and r2: "array s2 ! nat (track ops' i) = a" by simp_all
    have so2: "el_state (heap s2 ! a) = Sorted" using e2 a1 st1 by (rule sorted_kept)
    have 1: "el_state (elem_at s2 (track ops' i)) = Sorted"
      using so2 r2 by (simp add: elem_at_def)
    have 2: "shown_state (heap s2) st i = Sorted"
      using so2 i by (simp add: shown_state_def snapshot_def st_def a_def)
    have 3: "\<forall>e\<in>set (snapshot (heap (snd (getSteps s2))) (last (fst (getSteps s2)))).
                 el_state e = Sorted"
      by (rule getSteps_last_sorted)
    have 4: "(plain st' \<longrightarrow> shown_state (heap s4) st' (track (ops' @ [x]) i) = Sorted) \<and>
                   (\<forall>a b. compareIndices st' = Some [a, b] \<longrightarrow>
                      map el_state (snapshot (heap s4) st') = highlight Comparing a b n) \<and>
                   (\<forall>a b. swapIndices st' = Some [a, b] \<longrightarrow>
                      map el_state (snapshot (heap s4) st') = highlight Swapping a b n)"
      if x: "exec x s2 = Inr s3" and run': "run_ops s3 ops'' = Inr s4"
        and new: "st' \<in> set (drop (length (steps s2)) (steps s3))" for x s3 ops'' s4 st'
    proof -
      have f3: "frame s2 s3" using wf2 x by (rule frame_exec)
      have wf3: "wf_state s3" using f3 wf2 by (rule frame_wf)
      have low3: "live_low n s3" using f3 low2 by (rule live_low_frame)
      have f4: "frame s3 s4" using wf3 run' by (rule frame_run_ops)
      have e3: "store_ext (heap s2) (heap s3)" using f3 by (simp add: frame_def)
      have e4: "store_ext (heap s3) (heap s4)" using f4 by (simp add: frame_def)
      have a2: "a < length (heap s2)" using a1 store_ext_length [OF e2] by simp
      have a3: "a < length (heap s3)" using a2 store_ext_length [OF e3] by simp
      have so4: "el_state (heap s4 ! a) = Sorted"
        using e4 a3 sorted_kept [OF e3 a2 so2] by (rule sorted_kept)
      from moved_ref [OF x p2] r2 have p3: "\<not> bad_index s3 (moved x (track ops' i))"
        and r3: "array s3 ! nat (moved x (track ops' i)) = a" by simp_all
      have k4: "copies_kept n (heap s3) (heap s4)" using wf3 run' low3 by (rule copies_kept_run_ops)
      have same: "snapshot (heap s4) st' = snapshot (heap s3) st'" if "\<not> plain st'"
      proof (rule snapshot_kept [OF k4])
        from highlight_fresh [OF x new that] hn2
        show "\<forall>r\<in>set (step_array st'). n \<le> r \<and> r < length (heap s3)" by auto
      qed
      have A: "shown_state (heap s4) st' (track (ops' @ [x]) i) = Sorted" if "plain st'"
      proof -
        have "step_array st' = array s3" using x new that by (rule plain_steps_exec)
        moreover have "nat (moved x (track ops' i)) < length (array s3)"
          using p3 by (auto simp: bad_index_def)
        ultimately show ?thesis using so4 r3
          by (simp add: shown_state_def snapshot_def track_snoc)
      qed
      have B: "map el_state (snapshot (heap s4) st') = highlight Comparing a b n"
        if "compareIndices st' = Some [a, b]" for a b
      proof -
        from that have "\<not> plain st'" by (simp add: plain_def)
        with same compare_steps_exec [OF x new that] len2 show ?thesis by simp
      qed
      have C: "map el_state (snapshot (heap s4) st') = highlight Swapping a b n"
        if "swapIndices st' = Some [a, b]" for a b
      proof -
        from that have "\<not> plain st'" by (simp add: plain_def)
        with same swap_steps_exec [OF x new that] len2 show ?thesis by simp
      qed
      from A B C show ?thesis by blast
    qed
    from p2 1 2 3 4 show ?thesis by blast
  qed
  have "steps s1 = steps s @ [st]" "sortedIndices st = Some [i]" "plain st"
    by (simp_all add: s1_def st_def plain_def)
  with m vals later show "\<exists>s1 st. markSorted s i = Inr s1 \<and> steps s1 = steps s @ [st] \<and>
          sortedIndices st = Some [i] \<and> plain st \<and> getValues s1 = getValues s \<and>
          (\<forall>ops' s2. run_ops s1 ops' = Inr s2 \<longrightarrow>
             \<not> bad_index s2 (track ops' i) \<and>
             el_state (elem_at s2 (track ops' i)) = Sorted \<and>
             shown_state (heap s2) st i = Sorted \<and>
             (\<forall>e\<in>set (snapshot (heap (snd (getSteps s2))) (last (fst (getSteps s2)))).
                 el_state e = Sorted) \<and>
             (\<forall>x s3 ops'' s4 st'.
                 exec x s2 = Inr s3 \<and> run_ops s3 ops'' = Inr s4 \<and>
                 st' \<in> set (drop (length (steps s2)) (steps s3)) \<longrightarrow>
                   (plain st' \<longrightarrow> shown_state (heap s4) st' (track (ops' @ [x]) i) = Sorted) \<and>
                   (\<forall>a b. compareIndices st' = Some [a, b] \<longrightarrow>
                      map el_state (snapshot (heap s4) st') = highlight Comparing a b (length els)) \<and>
                   (\<forall>a b. swapIndices st' = Some [a, b] \<longrightarrow>
                      map el_state (snapshot (heap s4) st') = highlight Swapping a b (length els))))"
    unfolding n_def by blast
qed

text \<open>
  Witness of C5 on the container holding 5 and 3: index 0 is valid and index 5 is not; after
  \<open>markSorted(0)\<close> and \<open>swap(0, 1)\<close> the element is at index 1 and sorted, a following
  \<open>addStep\<close> shows it sorted at index 1, and the highlight step of a following
  \<open>compare(0, 1)\<close> shows comparing at both indices.
\<close>

theorem markSorted_spec_witness:
  "run_ops (new_InstrumentedArray [elem 5 ''a'', elem 3 ''b'']) [] = Inr ia53 \<and>
   \<not> bad_index ia53 0 \<and> bad_index ia53 5 \<and> markSorted ia53 5 = Inl (IndexOutOfBounds 5) \<and>
   track [OpSwap 0 1] 0 = 1 \<and> track [OpSwap 0 1, OpAddStep ''note''] 0 = 1 \<and>
   (\<exists>s1 s2 s3 s4 st' st''.
      markSorted ia53 0 = Inr s1 \<and> run_ops s1 [OpSwap 0 1] = Inr s2 \<and>
      el_state (elem_at s2 1) = Sorted \<and>
      exec (OpAddStep ''note'') s2 = Inr s3 \<and> steps s3 = steps s2 @ [st'] \<and> plain st' \<and>
      shown_state (heap s3) st' 1 = Sorted \<and>
      exec (OpCompare 0 1) s2 = Inr s4 \<and> steps s4 = steps s2 @ [st''] \<and>
      compareIndices st'' = Some [0, 1] \<and>
      map el_state (snapshot (heap s4) st'') = [Comparing, Comparing])"
proof -
  have r0: "run_ops (new_InstrumentedArray [elem 5 ''a'', elem 3 ''b'']) [] = Inr ia53"
    by (simp add: ia53_def)
  have b: "\<not> bad_index ia53 0" "bad_index ia53 5" by (simp_all add: bad_index_def)
  have t: "track [OpSwap 0 1] 0 = 1" "track [OpSwap 0 1, OpAddStep ''note''] 0 = 1"
    "track ([OpSwap 0 1] @ [OpAddStep ''note'']) 0 = 1" "track ([OpSwap 0 1] @ [OpCompare 0 1]) 0 = 1"
    by (simp_all add: track_def)
  have h: "highlight Comparing 0 1 (length [elem 5 ''a'', elem 3 ''b'']) = [Comparing, Comparing]"
    by (simp add: highlight_def)
  from markSorted_spec [OF r0, of 5] b have e: "markSorted ia53 5 = Inl (IndexOutOfBounds 5)"
    by simp
  note sp = markSorted_spec [OF r0, of 0, THEN conjunct2, rule_format, OF b(1)]
  then obtain s1 st where m: "markSorted ia53 0 = Inr s1"
    and later: "\<forall>ops' s2. run_ops s1 ops' = Inr s2 \<longrightarrow>
             \<not> bad_index s2 (track ops' 0) \<and>
             el_state (elem_at s2 (track ops' 0)) = Sorted \<and>
             shown_state (heap s2) st 0 = Sorted \<and>
             (\<forall>e\<in>set (snapshot (heap (snd (getSteps s2))) (last (fst (getSteps s2)))).
                 el_state e = Sorted) \<and>
             (\<forall>x s3 ops'' s4 st'.
                 exec x s2 = Inr s3 \<and> run_ops s3 ops'' = Inr s4 \<and>
                 st' \<in> set (drop (length (steps s2)) (steps s3)) \<longrightarrow>
                   (plain st' \<longrightarrow> shown_state (heap s4) st' (track (ops' @ [x]) 0) = Sorted) \<and>
                   (\<forall>a b. compareIndices st' = Some [a, b] \<longrightarrow>
                      map el_state (snapshot (heap s4) st') =
                        highlight Comparing a b (length [elem 5 ''a'', elem 3 ''b''])) \<and>
                   (\<forall>a b. swapIndices st' = Some [a, b] \<longrightarrow>
                      map el_state (snapshot (heap s4) st') =
                        highlight Swapping a b (length [elem 5 ''a'', elem 3 ''b''])))"
    by blast
  from m obtain s2 where r: "run_ops s1 [OpSwap 0 1] = Inr s2" and l2: "length (array s2) = 2"
    by (auto simp: markSorted_def swap_def bad_index_def Let_def split_def addStep_def)
  note l = later [rule_format, OF r]
  from l [THEN conjunct2, THEN conjunct1] t have so: "el_state (elem_at s2 1) = Sorted"
    by simp
  note steps = l [THEN conjunct2, THEN conjunct2, THEN conjunct2, THEN conjunct2, rule_format]
  define st' where "st' = plain_step (array s2) ''note''"
  define s3 where "s3 = addStep ''note'' s2"
  have x3: "exec (OpAddStep ''note'') s2 = Inr s3" by (simp add: s3_def)
  have s3: "steps s3 = steps s2 @ [st']" by (simp add: s3_def st'_def addStep_def js_or_def)
  have p3: "plain st'" by (simp add: st'_def plain_def plain_step_def)
  have r3: "run_ops s3 [] = Inr s3" by simp
  have "st' \<in> set (drop (length (steps s2)) (steps s3))" by (simp add: s3)
  with x3 r3 have "exec (OpAddStep ''note'') s2 = Inr s3 \<and> run_ops s3 [] = Inr s3 \<and>
      st' \<in> set (drop (length (steps s2)) (steps s3))" by simp
  from steps [OF this, THEN conjunct1] p3 t have sh3: "shown_state (heap s3) st' 1 = Sorted" by simp
  have "\<exists>r s4. compare s2 0 1 = Inr (r, s4)"
    using l2 by (simp add: compare_def bad_index_def split_def Let_def)
  then obtain r4 s4 where c4: "compare s2 0 1 = Inr (r4, s4)" by blast
  then have x4: "exec (OpCompare 0 1) s2 = Inr s4" by simp
  from c4 obtain st'' where s4: "steps s4 = steps s2 @ [st'']" and ci: "compareIndices st'' = Some [0, 1]"
    by (auto simp: compare_def split_def Let_def split: if_splits)
  have r4: "run_ops s4 [] = Inr s4" by simp
  have "st'' \<in> set (drop (length (steps s2)) (steps s4))" by (simp add: s4)
  with x4 r4 have "exec (OpCompare 0 1) s2 = Inr s4 \<and> run_ops s4 [] = Inr s4 \<and>
      st'' \<in> set (drop (length (steps s2)) (steps s4))" by simp
  from steps [OF this, THEN conjunct2, THEN conjunct1, rule_format, OF ci] h
  have sh4: "map el_state (snapshot (heap s4) st'') = [Comparing, Comparing]" by simp
  from m r so x3 s3 p3 sh3 x4 s4 ci sh4
  have "\<exists>s1 s2 s3 s4 st' st''.
      markSorted ia53 0 = Inr s1 \<and> run_ops s1 [OpSwap 0 1] = Inr s2 \<and>
      el_state (elem_at s2 1) = Sorted \<and>
      exec (OpAddStep ''note'') s2 = Inr s3 \<and> steps s3 = steps s2 @ [st'] \<and> plain st' \<and>
      shown_state (heap s3) st' 1 = Sorted \<and>
      exec (OpCompare 0 1) s2 = Inr s4 \<and> steps s4 = steps s2 @ [st''] \<and>
      compareIndices st'' = Some [0, 1] \<and>
      map el_state (snapshot (heap s4) st'') = [Comparing, Comparing]"
    by (intro exI conjI)
  with r0 b e t show ?thesis by simp
qed

text \<open>
  Counterexample to C5 as stated: after \<open>markSorted(0)\<close>, the step appended by
  \<open>compare(1, 1)\<close> shows index 0 with state default; and after \<open>markSorted(0)\<close> and
  \<open>swap(0, 1)\<close> the first step of the swap shows index 0 as swapping and its second step
  shows index 0, where the other element now is, as default.
\<close>

theorem markSorted_counterexample:
  "shown_states (run_ops ia53 [OpMarkSorted 0]) = [[Sorted, Default], [Sorted, Default]] \<and>
   shown_states (run_ops ia53 [OpMarkSorted 0, OpCompare 1 1]) =
     [[Sorted, Default], [Sorted, Default], [Default, Comparing]] \<and>
   shown_states (run_ops ia53 [OpMarkSorted 0, OpSwap 0 1]) =
     [[Sorted, Default], [Sorted, Default], [Swapping, Swapping], [Default, Sorted]]"
  by (simp add: shown_states_def markSorted_def compare_def swap_def addStep_def bad_index_def
      Let_def split_def snapshot_def plain_step_def set_sorted_def map_states_def elem_def
      swap_refs_def)

text \<open>
  Claim C4 (as amended). After \<open>setStepDescription(text)\<close> with a non-empty text, the step
  appended next by \<open>compare\<close>, \<open>markSorted\<close>, \<open>markRangeSorted\<close>, by \<open>addStep()\<close> without a
  description of its own, or by \<open>swap\<close> (its first, pre-swap step) has the text as its
  description, and the pending text is empty when the operation returns. A step appended
  through \<open>addStep(d)\<close> with a non-empty \<open>d\<close>, as the second step of \<open>swap\<close> is, carries \<open>d\<close>
  and the pending text is discarded. \<open>swap(i, i)\<close> appends nothing and keeps the pending text.
\<close>

theorem pending_description_spec:
  assumes "d \<noteq> []"
  shows "(\<forall>i j r s'. compare (setStepDescription d s) i j = Inr (r, s') \<longrightarrow>
            (\<exists>st. steps s' = steps s @ [st] \<and> description st = d) \<and> stepDescription s' = []) \<and>
         (\<forall>i s'. markSorted (setStepDescription d s) i = Inr s' \<longrightarrow>
            (\<exists>st. steps s' = steps s @ [st] \<and> description st = d) \<and> stepDescription s' = []) \<and>
         (\<forall>a b s'. markRangeSorted (setStepDescription d s) a b = Inr s' \<longrightarrow>
            (\<exists>st. steps s' = steps s @ [st] \<and> description st = d) \<and> stepDescription s' = []) \<and>
         (\<forall>d'. (\<exists>st. steps (addStep d' (setStepDescription d s)) = steps s @ [st] \<and>
                   description st = (if d' = [] then d else d')) \<and>
               stepDescription (addStep d' (setStepDescription d s)) = []) \<and>
         (\<forall>i j s'. swap (setStepDescription d s) i j = Inr s' \<longrightarrow>
            (if i = j then s' = setStepDescription d s
             else (\<exists>st1 st2. steps s' = steps s @ [st1, st2] \<and> description st1 = d \<and>
                     description st2 =
                       swapped_text i j (el_value (elem_at s' i)) (el_value (elem_at s' j))) \<and>
                  stepDescription s' = []))"
proof -
  have 1: "(\<exists>st. steps s' = steps s @ [st] \<and> description st = d) \<and> stepDescription s' = []"
    if "compare (setStepDescription d s) i j = Inr (r, s')" for i j r s'
    using that assms
    by (auto simp: compare_def setStepDescription_def bad_index_def split_def Let_def js_or_def
        split: if_splits)
  have 2: "(\<exists>st. steps s' = steps s @ [st] \<and> description st = d) \<and> stepDescription s' = []"
    if "markSorted (setStepDescription d s) i = Inr s'" for i s'
    using that assms
    by (auto simp: markSorted_def setStepDescription_def bad_index_def Let_def js_or_def
        split: if_splits)
  have 3: "(\<exists>st. steps s' = steps s @ [st] \<and> description st = d) \<and> stepDescription s' = []"
    if "markRangeSorted (setStepDescription d s) a b = Inr s'" for a b s'
    using that assms
    by (auto simp: markRangeSorted_def setStepDescription_def Let_def js_or_def split: if_splits)
  have 4: "(\<exists>st. steps (addStep d' (setStepDescription d s)) = steps s @ [st] \<and>
                   description st = (if d' = [] then d else d')) \<and>
               stepDescription (addStep d' (setStepDescription d s)) = []" for d'
    using assms by (simp add: addStep_def setStepDescription_def plain_step_def js_or_def)
  have 5: "if i = j then s' = setStepDescription d s
             else (\<exists>st1 st2. steps s' = steps s @ [st1, st2] \<and> description st1 = d \<and>
                     description st2 =
                       swapped_text i j (el_value (elem_at s' i)) (el_value (elem_at s' j))) \<and>
                  stepDescription s' = []"
    if "swap (setStepDescription d s) i j = Inr s'" for i j s'
  proof (cases "i = j")
    case True
    with that show ?thesis by (auto simp: swap_def split: if_splits)
  next
    case False
    have nonempty: "swapped_text i j x y \<noteq> []" for x y
      by (simp add: swapped_text_def)
    from that False assms nonempty show ?thesis
      by (auto simp: swap_def setStepDescription_def bad_index_def split_def Let_def js_or_def
          addStep_def plain_step_def elem_at_def split: if_splits)
  qed
  from 1 2 3 4 5 show ?thesis by blast
qed

text \<open>
  Witness of C4 with the text "foo" on the container holding 5 and 3.
\<close>

theorem pending_description_spec_witness:
  "''foo'' \<noteq> [] \<and>
   shown_descriptions (map_sum id snd (compare (setStepDescription ''foo'' ia53) 0 1)) =
     [''Starting custom algorithm'', ''foo''] \<and>
   shown_descriptions (markSorted (setStepDescription ''foo'' ia53) 0) =
     [''Starting custom algorithm'', ''foo''] \<and>
   shown_descriptions (markRangeSorted (setStepDescription ''foo'' ia53) 0 1) =
     [''Starting custom algorithm'', ''foo''] \<and>
   (\<exists>s2. swap (setStepDescription ''foo'' ia53) 0 1 = Inr s2 \<and> stepDescription s2 = [] \<and>
      take 2 (shown_descriptions (Inr s2)) = [''Starting custom algorithm'', ''foo''])"
proof -
  have ne: "''foo'' \<noteq> []" by simp
  note spec = pending_description_spec [OF ne, of ia53]
  have "\<exists>r s'. compare (setStepDescription ''foo'' ia53) 0 1 = Inr (r, s')"
    by (simp add: compare_def setStepDescription_def bad_index_def split_def Let_def)
  then obtain r s' where c: "compare (setStepDescription ''foo'' ia53) 0 1 = Inr (r, s')"
    by blast
  have "\<exists>s1. markSorted (setStepDescription ''foo'' ia53) 0 = Inr s1"
    by (simp add: markSorted_def setStepDescription_def bad_index_def Let_def)
  then obtain s1 where m: "markSorted (setStepDescription ''foo'' ia53) 0 = Inr s1"
    by blast
  have "\<exists>s3. markRangeSorted (setStepDescription ''foo'' ia53) 0 1 = Inr s3"
    by (simp add: markRangeSorted_def setStepDescription_def Let_def)
  then obtain s3 where mr: "markRangeSorted (setStepDescription ''foo'' ia53) 0 1 = Inr s3"
    by blast
  have "\<exists>s2. swap (setStepDescription ''foo'' ia53) 0 1 = Inr s2"
    by (simp add: swap_def setStepDescription_def bad_index_def split_def Let_def)
  then obtain s2 where sw: "swap (setStepDescription ''foo'' ia53) 0 1 = Inr s2"
    by blast
  from spec [THEN conjunct1, rule_format, OF c]
  obtain st where 1: "steps s' = steps ia53 @ [st]" "description st = ''foo''"
    by blast
  from spec [THEN conjunct2, THEN conjunct1, rule_format, OF m]
  obtain st' where 2: "steps s1 = steps ia53 @ [st']" "description st' = ''foo''"
    by blast
  from spec [THEN conjunct2, THEN conjunct2, THEN conjunct1, rule_format, OF mr]
  obtain st3 where 3: "steps s3 = steps ia53 @ [st3]" "description st3 = ''foo''"
    by blast
  from spec [THEN conjunct2, THEN conjunct2, THEN conjunct2, THEN conjunct2, rule_format, OF sw]
  obtain st1 st2 where 4: "steps s2 = steps ia53 @ [st1, st2]" "description st1 = ''foo''"
    and 5: "stepDescription s2 = []"
    by auto
  have "shown_descriptions (map_sum id snd (compare (setStepDescription ''foo'' ia53) 0 1)) =
     [''Starting custom algorithm'', ''foo'']"
    by (simp add: c shown_descriptions_def 1 plain_step_def)
  moreover have "shown_descriptions (markSorted (setStepDescription ''foo'' ia53) 0) =
     [''Starting custom algorithm'', ''foo'']"
    by (simp add: m shown_descriptions_def 2 plain_step_def)
  moreover have "shown_descriptions (markRangeSorted (setStepDescription ''foo'' ia53) 0 1) =
     [''Starting custom algorithm'', ''foo'']"
    by (simp add: mr shown_descriptions_def 3 plain_step_def)
  moreover have "take 2 (shown_descriptions (Inr s2)) = [''Starting custom algorithm'', ''foo'']"
    by (simp add: shown_descriptions_def 4 plain_step_def)
  ultimately show ?thesis using sw 5 by simp
qed

text \<open>
  Counterexample to C4 as stated: with the text "foo" pending, the step appended by
  \<open>addStep("bar")\<close> is described as "bar", and the step appended by \<open>set(0, 7)\<close> as
  "Set element at index 0 to 7"; in both cases the pending text is dropped unused.
\<close>

theorem pending_description_counterexample:
  "shown_descriptions (run_ops ia53 [OpSetStepDescription ''foo'', OpAddStep ''bar'']) =
     [''Starting custom algorithm'', ''bar''] \<and>
   shown_descriptions (run_ops ia53 [OpSetStepDescription ''foo'', OpSet 0 7]) =
     [''Starting custom algorithm'', ''Set element at index 0 to 7'']"
  by (simp add: shown_descriptions_def setStepDescription_def addStep_def set_ia_def bad_index_def
      plain_step_def js_or_def set_text_def)

section \<open>Primitives of the built-in sorts\<close>





lemma values_push_plain [simp]: "values_of (push_plain d s) = values_of s"
  by (simp add: values_of_def push_plain_def)

lemma values_push_mapped [simp]:
  "wf_state s \<Longrightarrow> values_of (push_mapped f ci si d s) = values_of s"
  by (simp add: values_of_def push_mapped_def split_def Let_def wf_state_def refs_ok_def)

lemma values_sorted_at [simp]: "wf_state s \<Longrightarrow> values_of (sorted_at i s) = values_of s"
  by (simp add: values_of_def sorted_at_def wf_state_def refs_ok_def nth_set_sorted)



lemma length_values_of [simp]: "length (values_of s) = length (array s)"
  by (simp add: values_of_def)

lemma array_push_plain [simp]: "array (push_plain d s) = array s"
  by (simp add: push_plain_def)

lemma array_push_mapped [simp]: "array (push_mapped f ci si d s) = array s"
  by (simp add: push_mapped_def split_def Let_def)

lemma array_sorted_at [simp]: "array (sorted_at i s) = array s"
  by (simp add: sorted_at_def)

lemma length_array_swap_at [simp]: "length (array (swap_at i j s)) = length (array s)"
  by (simp add: swap_at_def)


lemma length_vstep [simp]: "length (vstep j xs) = length xs"
  by (simp add: vstep_def vswap_def)



lemma length_vinner [simp]: "length (vinner j k xs) = length xs"
  by (induction k arbitrary: j xs) simp_all


section \<open>Bubble sort on values\<close>









lemma values_start_state [simp]: "values_of (start_state arr) = map el_value arr"
  unfolding values_of_def start_state_def by (rule nth_equalityI) simp_all


lemma array_start_state [simp]: "array (start_state arr) = [0..<length arr]"
  by (simp add: start_state_def)

lemma steps_start_state [simp]: "steps (start_state arr) = []"
  by (simp add: start_state_def)




section \<open>Claims about the built-in sorts\<close>

text \<open>The definitions to unfold when a sort is run on a concrete input.\<close>

lemmas sort_eval = bubbleSort_def start_state_def push_plain_def push_mapped_def
  bubble_step_def bubble_mark_def sorted_at_def swap_at_def value_at_def swap_refs_def
  set_sorted_def map_states_def plain_step_def Let_def split_def snapshot_def







text \<open>
  Claim C1, evaluated at its failing inputs. The steps pushed with \<open>[...this.array]\<close> hold
  the element objects of the live array themselves. On the container holding 5 and 3, the
  initial step shows the values 5, 3 and the states default, default when it is appended;
  after \<open>set(0, 9)\<close> the same step shows 9, 3, and after \<open>markSorted(0)\<close> it shows sorted,
  default. In the same way the first step of bubbleSort on the input 2, 1 shows the states
  default, default when it is pushed and sorted, sorted in the returned trace.
\<close>

theorem steps_share_objects:
  "shown_values (Inr ia53) = [[5, 3]] \<and>
   shown_values (run_ops ia53 [OpSet 0 9]) = [[9, 3], [9, 3]] \<and>
   shown_states (Inr ia53) = [[Default, Default]] \<and>
   shown_states (run_ops ia53 [OpMarkSorted 0]) = [[Sorted, Default], [Sorted, Default]] \<and>
   shown_states (Inr (push_plain ''Starting Bubble Sort - Compare adjacent elements and swap if needed''
      (start_state arr21))) = [[Default, Default]] \<and>
   shown_states (bubbleSort arr21) =
     [[Sorted, Sorted], [Comparing, Comparing], [Swapping, Swapping],
      [Sorted, Sorted], [Sorted, Sorted], [Sorted, Sorted]]"
  by (simp add: shown_values_def shown_states_def set_ia_def markSorted_def bad_index_def
      elem_def addStep_def elem_at_def arr21_def sort_eval)

section \<open>bogoSort\<close>

lemma random_index:
  assumes "valid_random rnd"
  shows "nat \<lfloor>rnd k * (real (Suc i) + 1)\<rfloor> \<le> Suc i"
proof -
  have "rnd k * (real (Suc i) + 1) < real (Suc i) + 1"
    using assms by (simp add: valid_random_def)
  then have "\<lfloor>rnd k * (real (Suc i) + 1)\<rfloor> < int (Suc i) + 1"
    by (simp add: floor_less_iff)
  then show ?thesis by linarith
qed

lemma bogo_inv_push_plain: "bogo_inv arr s \<Longrightarrow> bogo_inv arr (push_plain d s)"
  by (simp add: bogo_inv_def push_plain_def plain_step_def)

lemma perm_upt_set: "mset xs = mset [0..<n] \<Longrightarrow> set xs = {0..<n}"
  by (metis mset_eq_setD set_upt)

lemma bogo_inv_wf:
  assumes "bogo_inv arr s"
  shows "wf_state s"
proof -
  have "set (array s) = {0..<length (heap s)}"
    using assms unfolding bogo_inv_def by (metis perm_upt_set)
  moreover have "set (step_array st) = {0..<length (heap s)}" if "st \<in> set (steps s)" for st
    using assms that unfolding bogo_inv_def by (metis perm_upt_set)
  ultimately show ?thesis by (simp add: wf_state_def refs_ok_def)
qed

lemma bogo_inv_length: "bogo_inv arr s \<Longrightarrow> length (array s) = length arr"
  unfolding bogo_inv_def by (metis mset_eq_length length_upt diff_zero)

lemma shuffle_loop_props:
  assumes "valid_random rnd"
  shows "shuffle_loop rnd i k s = (k', s') \<Longrightarrow> bogo_inv arr s \<Longrightarrow> i < length arr \<Longrightarrow>
     bogo_inv arr s' \<and> steps s' = steps s"
proof (induction i arbitrary: k s)
  case 0
  then show ?case by simp
next
  case (Suc i)
  let ?j = "nat \<lfloor>rnd k * (real (Suc i) + 1)\<rfloor>"
  have j: "?j \<le> Suc i" using assms by (rule random_index)
  have len: "length (array s) = length arr" using Suc.prems(2) by (rule bogo_inv_length)
  have inv: "bogo_inv arr (swap_at (Suc i) ?j s)"
    using Suc.prems(2,3) j len by (simp add: bogo_inv_def swap_at_def)
  have "shuffle_loop rnd i (Suc k) (swap_at (Suc i) ?j s) = (k', s')"
    using Suc.prems(1) by (simp add: Let_def)
  from Suc.IH [OF this inv] Suc.prems(3) show ?case
    by (simp add: swap_at_def)
qed

lemma shuffle_props:
  assumes "valid_random rnd" "shuffle rnd k s = (k', s')" "bogo_inv arr s"
  shows "bogo_inv arr s' \<and>
    (\<exists>a1 a2. steps s' = steps s @ [plain_step a1 shuffling_text, plain_step a2 shuffled_text])"
proof -
  obtain k1 s1 where l: "shuffle_loop rnd (length (array s) - 1) k (push_plain shuffling_text s) = (k1, s1)"
    by (cases "shuffle_loop rnd (length (array s) - 1) k (push_plain shuffling_text s)") auto
  with assms(2) have e: "s' = push_plain shuffled_text s1" by (simp add: shuffle_def)
  have inv0: "bogo_inv arr (push_plain shuffling_text s)" using assms(3) by (rule bogo_inv_push_plain)
  have len: "length (array s) = length arr" using assms(3) by (rule bogo_inv_length)
  show ?thesis
  proof (cases "arr = []")
    case True
    with l len have s1: "s1 = push_plain shuffling_text s" by simp
    have "bogo_inv arr s'" unfolding e s1 using inv0 by (rule bogo_inv_push_plain)
    moreover have "steps s' = steps s @ [plain_step (array s) shuffling_text,
        plain_step (array s) shuffled_text]"
      by (simp add: e s1 push_plain_def)
    ultimately show ?thesis by blast
  next
    case False
    then have "length (array s) - 1 < length arr" using len by simp
    from shuffle_loop_props [OF assms(1) l inv0 this]
    have inv1: "bogo_inv arr s1" and st1: "steps s1 = steps (push_plain shuffling_text s)"
      by simp_all
    have "bogo_inv arr s'" unfolding e using inv1 by (rule bogo_inv_push_plain)
    moreover have "steps s' = steps s @ [plain_step (array s) shuffling_text,
        plain_step (array s1) shuffled_text]"
      by (simp add: e st1 push_plain_def)
    ultimately show ?thesis by blast
  qed
qed

lemma shuffles_simps [simp]:
  "shuffles [] = 0"
  "shuffles (xs @ ys) = shuffles xs + shuffles ys"
  "shuffles [plain_step a shuffling_text] = 1"
  "shuffles [plain_step a shuffled_text] = 0"
  "shuffles [plain_step a gave_up_text] = 0"
  "shuffles (plain_step a shuffling_text # xs) = Suc (shuffles xs)"
  "shuffles (plain_step a shuffled_text # xs) = shuffles xs"
  by (simp_all add: shuffles_def plain_step_def shuffling_text_def shuffled_text_def gave_up_text_def)

lemma bogo_loop_props:
  "bogo_loop rnd attempts k s = (attempts', k', s') \<Longrightarrow> bogo_inv arr s \<Longrightarrow> attempts \<le> 50 \<Longrightarrow>
     valid_random rnd \<Longrightarrow>
     bogo_inv arr s' \<and> attempts \<le> attempts' \<and> attempts' \<le> 50 \<and>
     (\<exists>new. steps s' = steps s @ new \<and> shuffles new = attempts' - attempts \<and>
        (\<forall>st\<in>set new. loop_text (description st)) \<and>
        (\<not> isSorted s' \<and> attempts < 50 \<longrightarrow>
           attempts' = 50 \<and> new \<noteq> [] \<and> description (last new) = gave_up_text))"
proof (induction rnd attempts k s arbitrary: attempts' k' s' rule: bogo_loop.induct)
  case (1 rnd attempts k s)
  show ?case
  proof (cases "\<not> isSorted s \<and> attempts < 50")
    case False
    with "1.prems" have "attempts' = attempts" "s' = s"
      by (simp_all add: bogo_loop.simps)
    with "1.prems" False show ?thesis by auto
  next
    case True
    obtain k1 s1 where sh: "shuffle rnd k s = (k1, s1)" by (cases "shuffle rnd k s") auto
    from shuffle_props [OF "1.prems"(4) sh "1.prems"(2)] obtain a1 a2 where
      inv1: "bogo_inv arr s1" and
      st1: "steps s1 = steps s @ [plain_step a1 shuffling_text, plain_step a2 shuffled_text]"
      by blast
    show ?thesis
    proof (cases "attempts + 1 \<ge> 50")
      case last: True
      with True sh "1.prems"(1) have e: "attempts' = attempts + 1" "s' = push_plain gave_up_text s1"
        by (simp_all add: bogo_loop.simps)
      define new where "new = [plain_step a1 shuffling_text, plain_step a2 shuffled_text,
          plain_step (array s1) gave_up_text]"
      have 1: "steps s' = steps s @ new"
        by (simp add: e push_plain_def st1 new_def)
      have 2: "bogo_inv arr s'" unfolding e using inv1 by (rule bogo_inv_push_plain)
      have 3: "shuffles new = attempts' - attempts" by (simp add: new_def e)
      have 4: "\<forall>st\<in>set new. loop_text (description st)"
        by (simp add: new_def loop_text_def plain_step_def)
      have 5: "new \<noteq> []" "description (last new) = gave_up_text"
        by (simp_all add: new_def plain_step_def)
      have 6: "attempts' = 50" "attempts' \<le> 50" "attempts \<le> attempts'"
        using last True e by simp_all
      from 1 2 3 4 5 6 show ?thesis by blast
    next
      case more: False
      with True sh "1.prems"(1) have rec: "bogo_loop rnd (attempts + 1) k1 s1 = (attempts', k', s')"
        by (simp add: bogo_loop.simps)
      from more have le: "attempts + 1 \<le> 50" by simp
      from "1.IH" [OF True sh [symmetric] more rec inv1 le "1.prems"(4)] obtain new where
        inv': "bogo_inv arr s'" and ge: "attempts + 1 \<le> attempts'" and a': "attempts' \<le> 50" and
        st': "steps s' = steps s1 @ new" and sh': "shuffles new = attempts' - (attempts + 1)" and
        tx': "\<forall>st\<in>set new. loop_text (description st)" and
        fin': "\<not> isSorted s' \<and> attempts + 1 < 50 \<longrightarrow>
           attempts' = 50 \<and> new \<noteq> [] \<and> description (last new) = gave_up_text"
        by blast
      define new0 where "new0 = [plain_step a1 shuffling_text, plain_step a2 shuffled_text] @ new"
      have 1: "steps s' = steps s @ new0" by (simp add: st' st1 new0_def)
      have 3: "shuffles new0 = attempts' - attempts" using sh' ge by (simp add: new0_def)
      have 4: "\<forall>st\<in>set new0. loop_text (description st)"
        using tx' by (auto simp: new0_def loop_text_def plain_step_def)
      have 5: "attempts' = 50 \<and> new0 \<noteq> [] \<and> description (last new0) = gave_up_text"
        if ns: "\<not> isSorted s'"
      proof (cases "attempts + 1 < 50")
        case True
        with fin' ns show ?thesis by (simp add: new0_def)
      next
        case False
        with more show ?thesis by simp
      qed
      have "attempts \<le> attempts'" using ge by simp
      with 1 3 4 5 inv' a' show ?thesis by blast
    qed
  qed
qed

text \<open>
  Claim C8. For every input and every random source, bogoSort makes at most 50 shuffles. If
  the run ends without the array in ascending order, it made exactly 50, the last recorded
  step is the narrative "Bogo Sort stopped after 50 attempts to prevent infinite loop!", and no
  step is a success step: none carries the "Bogo Sort complete" narrative, and every step
  shows the input elements themselves, permuted, with the states they came with.
\<close>

theorem bogoSort_bounded:
  assumes "valid_random rnd"
  shows "shuffles (steps (bogoSort rnd arr)) \<le> 50 \<and>
     (\<not> isSorted (bogoSort rnd arr) \<longrightarrow>
        shuffles (steps (bogoSort rnd arr)) = 50 \<and>
        description (last (steps (bogoSort rnd arr))) = gave_up_text \<and>
        (\<forall>st\<in>set (steps (bogoSort rnd arr)).
            (\<forall>n. description st \<noteq> success_text n) \<and>
            mset (snapshot (heap (bogoSort rnd arr)) st) = mset arr))"
proof -
  define d0 where "d0 = ''Starting Bogo Sort - Randomly shuffle until sorted (THIS IS INEFFICIENT!)''"
  define s1 where "s1 = push_plain d0 (start_state arr)"
  obtain attempts k s2 where l: "bogo_loop rnd 0 0 s1 = (attempts, k, s2)"
    by (cases "bogo_loop rnd 0 0 s1") auto
  have inv1: "bogo_inv arr s1"
    by (simp add: bogo_inv_def s1_def push_plain_def start_state_def plain_step_def)
  from bogo_loop_props [OF l inv1 _ assms] obtain new where
    inv2: "bogo_inv arr s2" and a: "attempts \<le> 50" and
    st2: "steps s2 = steps s1 @ new" and sh: "shuffles new = attempts" and
    tx: "\<forall>st\<in>set new. loop_text (description st)" and
    fin: "\<not> isSorted s2 \<longrightarrow> attempts = 50 \<and> new \<noteq> [] \<and> description (last new) = gave_up_text"
    by auto
  have st1: "steps s1 = [plain_step [0..<length arr] d0]"
    by (simp add: s1_def push_plain_def)
  have sh1: "shuffles (steps s1) = 0"
    by (simp add: st1 shuffles_def plain_step_def d0_def shuffling_text_def)
  show ?thesis
  proof (cases "isSorted s2")
    case True
    define s3 where "s3 = push_mapped (\<lambda>idx. Sorted) None None (success_text attempts) s2"
    have e: "bogoSort rnd arr = s3"
      using l True by (simp add: bogoSort_def Let_def s1_def d0_def s3_def)
    have "wf_state s2" using inv2 by (rule bogo_inv_wf)
    then have "values_of s3 = values_of s2" by (simp add: s3_def)
    then have "isSorted s3" using True by (simp add: isSorted_def)
    moreover have "\<exists>st. steps s3 = steps s2 @ [st] \<and> description st = success_text attempts"
      by (simp add: s3_def push_mapped_def split_def Let_def)
    then have "shuffles (steps s3) = attempts"
      using sh sh1 by (auto simp: st2 shuffles_def success_text_def shuffling_text_def)
    ultimately show ?thesis using a by (simp add: e)
  next
    case False
    have e: "bogoSort rnd arr = s2"
      using l False by (simp add: bogoSort_def Let_def s1_def d0_def)
    from fin False have f: "attempts = 50" "new \<noteq> []" "description (last new) = gave_up_text"
      by simp_all
    have 1: "shuffles (steps s2) = 50" by (simp add: st2 sh sh1 f)
    have 2: "description (last (steps s2)) = gave_up_text" using f by (simp add: st2)
    have 3: "\<forall>n. description st \<noteq> success_text n" if "st \<in> set (steps s2)" for st
    proof -
      from that st2 st1 consider "description st = d0" | "loop_text (description st)"
        using tx by (auto simp: plain_step_def)
      then show ?thesis
        by cases (auto simp: d0_def loop_text_def success_text_def shuffling_text_def
            shuffled_text_def gave_up_text_def)
    qed
    have 4: "mset (snapshot (heap s2) st) = mset arr" if "st \<in> set (steps s2)" for st
    proof -
      from inv2 that have h: "heap s2 = arr" and p: "mset (step_array st) = mset [0..<length arr]"
        by (simp_all add: bogo_inv_def)
      have "mset (snapshot (heap s2) st) = image_mset (\<lambda>a. arr ! a) (mset (step_array st))"
        by (simp add: snapshot_def h)
      also have "\<dots> = mset (map (\<lambda>a. arr ! a) [0..<length arr])"
        unfolding p by simp
      also have "map (\<lambda>a. arr ! a) [0..<length arr] = arr"
        by (rule map_nth)
      finally show ?thesis .
    qed
    from 1 2 3 4 False show ?thesis by (simp add: e)
  qed
qed

text \<open>
  Witness of C8: on the input 2, 1 a random source that always returns 1/2 swaps each position
  with itself, so all 50 shuffles leave the array unsorted.
\<close>

theorem bogoSort_bounded_witness:
  "valid_random (\<lambda>k. 1 / 2) \<and> \<not> isSorted (bogoSort (\<lambda>k. 1 / 2) arr21) \<and>
   shuffles (steps (bogoSort (\<lambda>k. 1 / 2) arr21)) = 50 \<and>
   description (last (steps (bogoSort (\<lambda>k. 1 / 2) arr21))) = gave_up_text"
proof -
  have v: "valid_random (\<lambda>k. 1 / 2)" by (simp add: valid_random_def)
  have n: "\<not> isSorted (bogoSort (\<lambda>k. 1 / 2) arr21)"
    by (simp add: bogoSort_def bogo_loop.simps shuffle_def isSorted_def values_of_def arr21_def
        elem_def sort_eval)
  from bogoSort_bounded [OF v, of arr21] v n show ?thesis by simp
qed

section \<open>Claims about the distribution sorts\<close>

text \<open>
  Claim C7 (as amended). The distribution sorts do not validate their input. countingSort
  fails on the empty input, and on any input whose range of values \<open>max - min + 1\<close> exceeds
  \<open>2^32 - 1\<close>, with the RangeError raised by the allocation of the count array. On the empty
  input radixSort returns a trace of two steps (start and completion) and bucketSort a trace
  of one step (completion).
\<close>

theorem distribution_sorts_input:
  "countingSort [] = Inl RangeError \<and>
   (\<forall>arr. arr \<noteq> [] \<and> Max (set (map el_value arr)) - Min (set (map el_value arr)) + 1 > 2 ^ 32 - 1 \<longrightarrow>
      countingSort arr = Inl RangeError) \<and>
   shown_descriptions (radixSort []) =
     [''Starting Radix Sort - Sort by individual digits from least to most significant'',
      ''Radix Sort complete! Sorted all digits from least to most significant.''] \<and>
   shown_descriptions (Inr (bucketSort [])) =
     [''Bucket Sort complete! Array already sorted (1 or fewer elements).'']"
proof (intro conjI allI impI)
  show "countingSort [] = Inl RangeError"
    by (simp add: countingSort_def Let_def math_max_def math_min_def new_Array_fill0_def
        start_state_def push_plain_def values_of_def)
next
  fix arr :: "ArrayElement list"
  assume a: "arr \<noteq> [] \<and> Max (set (map el_value arr)) - Min (set (map el_value arr)) + 1 > 2 ^ 32 - 1"
  let ?s1 = "push_plain ''Starting Counting Sort - Non-comparison sort using frequency counting''
                 (start_state arr)"
  have v: "values_of ?s1 = map el_value arr" by simp
  define k where "k = Max (set (map el_value arr)) - Min (set (map el_value arr)) + 1"
  have k: "k > 2 ^ 32 - 1" unfolding k_def by (rule a [THEN conjunct2])
  have ne: "map el_value arr \<noteq> []" using a [THEN conjunct1] by simp
  have "range_of (math_max (map el_value arr)) (math_min (map el_value arr)) = Fin k"
    unfolding k_def math_max_def math_min_def using ne by (simp only: if_False range_of.simps)
  moreover have "new_Array_fill0 (Fin k) = Inl RangeError"
    using k by (simp add: new_Array_fill0_def)
  ultimately have "new_Array_fill0 (range_of (math_max (values_of ?s1)) (math_min (values_of ?s1))) = Inl RangeError"
    unfolding v by simp
  then show "countingSort arr = Inl RangeError"
    by (simp add: countingSort_def Let_def)
next
  show "shown_descriptions (radixSort []) =
     [''Starting Radix Sort - Sort by individual digits from least to most significant'',
      ''Radix Sort complete! Sorted all digits from least to most significant.'']"
    by (simp add: shown_descriptions_def radixSort_def Let_def math_max_def start_state_def
        push_plain_def push_mapped_def values_of_def split_def plain_step_def)
next
  show "shown_descriptions (Inr (bucketSort [])) =
     [''Bucket Sort complete! Array already sorted (1 or fewer elements).'']"
    by (simp add: shown_descriptions_def bucketSort_def Let_def start_state_def push_mapped_def
        split_def)
qed

text \<open>
  Witness of C7: the input 0, 4294967296 is non-empty and its range of values is \<open>2^32 + 1\<close>.
\<close>

theorem distribution_sorts_input_witness:
  "arr_wide \<noteq> [] \<and>
   Max (set (map el_value arr_wide)) - Min (set (map el_value arr_wide)) + 1 > 2 ^ 32 - 1 \<and>
   countingSort arr_wide = Inl RangeError"
proof -
  have 1: "arr_wide \<noteq> []" by (simp add: arr_wide_def)
  have 2: "Max (set (map el_value arr_wide)) - Min (set (map el_value arr_wide)) + 1 > 2 ^ 32 - 1"
    by (simp add: arr_wide_def elem_def)
  from distribution_sorts_input [THEN conjunct2, THEN conjunct1, rule_format, of arr_wide] 1 2
  show ?thesis by blast
qed

text \<open>
  Counterexample to C7 as stated: on the empty input radixSort and bucketSort do not fail;
  each returns a trace that ends with its completion step.
\<close>

theorem empty_input_counterexample:
  "shown_descriptions (radixSort []) =
     [''Starting Radix Sort - Sort by individual digits from least to most significant'',
      ''Radix Sort complete! Sorted all digits from least to most significant.''] \<and>
   steps (bucketSort []) =
     [plain_step [] ''Bucket Sort complete! Array already sorted (1 or fewer elements).'']"
  by (simp add: shown_descriptions_def radixSort_def bucketSort_def Let_def math_max_def
      start_state_def push_plain_def push_mapped_def values_of_def split_def plain_step_def
      map_states_def)


end
